theory Spec2Isabelle
  imports Main "HOL-Library.Word"
begin

unbundle bit_operations_syntax

section \<open>Machine types shared by the development\<close>

text \<open>
  Go's \<open>byte\<close> and \<open>uint8\<close> are 8-bit words, \<open>uint64\<close> and (on the 64-bit
  targets the node is built for) \<open>uint\<close> are 64-bit words, and \<open>int\<close> is a 64-bit word
  read through \<open>sint\<close>. \<open>*big.Int\<close> is an unbounded integer.
\<close>

type_synonym byte = "8 word"
type_synonym uint64 = "64 word"

section \<open>Signature conversion (package tss, \<open>convertSignatureTSStoECDSA\<close>)\<close>

text \<open>
  \<open>signing.SignatureData\<close> of the threshold library, read through the three getters the
  function calls; \<open>ecdsa.Signature\<close> is what the engine emits.
\<close>

record SignatureData =
  GetSignatureRecovery :: "byte list"
  GetR :: "byte list"
  GetS :: "byte list"

record Signature =
  R :: int
  S :: int
  RecoveryID :: int

datatype go_panic = IndexOutOfRange | CloseOfClosedChannel | SendOnClosedChannel

text \<open>
  \<open>new(big.Int).SetBytes(buf)\<close>: the bytes are consumed from the most significant one,
  each step shifting the accumulator by one byte.
\<close>

fun SetBytes_from :: "int \<Rightarrow> byte list \<Rightarrow> int" where
  "SetBytes_from acc [] = acc"
| "SetBytes_from acc (b # bs) = SetBytes_from (acc * 256 + uint b) bs"

definition SetBytes :: "byte list \<Rightarrow> int" where
  "SetBytes buf = SetBytes_from 0 buf"

text \<open>
  The spec's wording, ``the big-endian integer interpretation'': byte \<open>i\<close> of \<open>n\<close>
  weighs \<open>256 ^ (n - 1 - i)\<close>.
\<close>

definition bigEndianValue :: "byte list \<Rightarrow> int" where
  "bigEndianValue bs = (\<Sum>i<length bs. uint (bs ! i) * 256 ^ (length bs - Suc i))"

text \<open>
  \<open>recoveryInt := int(0); recoveryInt = (recoveryInt << 8) | int(recoveryBytes[0])\<close>,
  computed in Go's 64-bit \<open>int\<close>. Indexing an empty slice panics.
\<close>

definition recoveryInt :: "byte \<Rightarrow> int" where
  "recoveryInt b0 = sint ((push_bit 8 (0 :: 64 word)) OR (ucast b0 :: 64 word))"

definition convertSignatureTSStoECDSA :: "SignatureData \<Rightarrow> go_panic + Signature" where
  "convertSignatureTSStoECDSA tssSignature =
     (case GetSignatureRecovery tssSignature of
        [] \<Rightarrow> Inl IndexOutOfRange
      | b0 # _ \<Rightarrow>
          Inr \<lparr> R = SetBytes (GetR tssSignature),
                S = SetBytes (GetS tssSignature),
                RecoveryID = recoveryInt b0 \<rparr>)"

text \<open>
  \<open>SigningSigner.Sign\<close> / \<open>signingSigner.sign\<close>: after the nil check and \<open>Start\<close>, the
  first arrival on the end channel or on the error channel decides the call. What the
  party does is the environment's choice, given as a \<open>party_outcome\<close>.
\<close>

datatype party_outcome =
    StartFailed string
  | EndChan SignatureData
  | ErrChan string

datatype sign_error =
    NoSigningParty
  | FailedToStartSigning string
  | FailedToSign string
  | SignPanic go_panic

definition sign :: "bool \<Rightarrow> party_outcome \<Rightarrow> sign_error + Signature" where
  "sign signingPartyIsNil outcome =
     (if signingPartyIsNil then Inl NoSigningParty
      else case outcome of
        StartFailed err \<Rightarrow> Inl (FailedToStartSigning err)
      | EndChan signature \<Rightarrow>
          (case convertSignatureTSStoECDSA signature of
             Inl p \<Rightarrow> Inl (SignPanic p)
           | Inr ecdsaSignature \<Rightarrow> Inr ecdsaSignature)
      | ErrChan err \<Rightarrow> Inl (FailedToSign err))"

section \<open>Key generation initialisation (package tss)\<close>

text \<open>
  A \<open>MemberID\<close> is a Go string, that is an immutable byte sequence; \<open>string(memberID)\<close>
  is the same bytes. Its \<open>bigInt()\<close> method is declared outside the files at hand and
  is a parameter of every function that calls it. \<open>tss.NewPartyID(id, moniker, key)\<close> of
  the threshold library stores its three arguments.
\<close>

type_synonym MemberID = "byte list"

record PartyID =
  Id :: "byte list"
  Moniker :: "byte list"
  Key :: int

definition NewPartyID :: "byte list \<Rightarrow> byte list \<Rightarrow> int \<Rightarrow> PartyID" where
  "NewPartyID pid moniker key = \<lparr> Id = pid, Moniker = moniker, Key = key \<rparr>"

datatype tss_error =
    MemberIDNotGreaterThanZero int
  | FailedToGeneratePartiesIDs tss_error
  | FailedToConnectBridgeNetwork string
  | GroupSizeNotGreaterThanThreshold int int
  | FailedToInitializeKeyGenerationMember tss_error
  | GroupWithoutMembers
  | GroupSizeNotGreaterThanDishonestThreshold int nat
  | FailedToGeneratePreParams string
  | NilPreParams

text \<open>
  \<open>generatePartiesIDs\<close>: one pass over \<open>groupMemberIDs\<close>. The first member whose
  integer form is not positive ends the call with an error and both results nil;
  otherwise a party id is appended, and \<open>thisPartyID\<close> points to the party id of the
  latest member equal to \<open>thisMemberID\<close> (nil, here \<open>None\<close>, when there is none).
\<close>

fun generatePartiesIDs_loop ::
  "(MemberID \<Rightarrow> int) \<Rightarrow> MemberID \<Rightarrow> MemberID list \<Rightarrow> PartyID option \<Rightarrow> PartyID list
     \<Rightarrow> tss_error + (PartyID option \<times> PartyID list)" where
  "generatePartiesIDs_loop bigInt thisMemberID [] thisPartyID groupPartiesIDs =
     Inr (thisPartyID, groupPartiesIDs)"
| "generatePartiesIDs_loop bigInt thisMemberID (memberID # rest) thisPartyID groupPartiesIDs =
     (if bigInt memberID \<le> 0 then Inl (MemberIDNotGreaterThanZero (bigInt memberID))
      else
        let newPartyID = NewPartyID memberID [] (bigInt memberID)
        in generatePartiesIDs_loop bigInt thisMemberID rest
             (if thisMemberID = memberID then Some newPartyID else thisPartyID)
             (groupPartiesIDs @ [newPartyID]))"

definition generatePartiesIDs ::
  "(MemberID \<Rightarrow> int) \<Rightarrow> MemberID \<Rightarrow> MemberID list
     \<Rightarrow> tss_error + (PartyID option \<times> PartyID list)" where
  "generatePartiesIDs bigInt thisMemberID groupMemberIDs =
     generatePartiesIDs_loop bigInt thisMemberID groupMemberIDs None []"

text \<open>
  \<open>tss.Parameters\<close> as built by \<open>tss.NewParameters(ctx, partyID, partyCount, threshold)\<close>
  over \<open>tss.NewPeerContext(tss.SortPartyIDs(ids))\<close>; the library sorts party ids by key.
  A Go \<open>int\<close> threshold is a 64-bit word read through \<open>sint\<close>.
\<close>

record Parameters =
  parties :: "PartyID list"
  partyID :: "PartyID option"
  partyCount :: int
  threshold :: int

definition SortPartyIDs :: "PartyID list \<Rightarrow> PartyID list" where
  "SortPartyIDs ids = sort_key Key ids"

text \<open>
  \<open>initializeKeyGenerationParty\<close>. The pre-parameters pointer is dereferenced when the
  party is built, which panics on a nil pointer (the result \<open>NilPreParams\<close>);
  \<open>bridge.start\<close> belongs to the network bridge and is the parameter \<open>bridgeStart\<close>,
  returning the error it reports, if any. The local party is represented by the
  parameters and pre-parameters it is built from.
\<close>

definition initializeKeyGenerationParty ::
  "(MemberID \<Rightarrow> int) \<Rightarrow> (MemberID list \<Rightarrow> Parameters \<Rightarrow> string option)
     \<Rightarrow> MemberID \<Rightarrow> MemberID list \<Rightarrow> 64 word \<Rightarrow> 'pp option
     \<Rightarrow> tss_error + (Parameters \<times> 'pp)" where
  "initializeKeyGenerationParty bigInt bridgeStart memberID groupMembersIDs thresh tssPreParams =
     (case generatePartiesIDs bigInt memberID groupMembersIDs of
        Inl err \<Rightarrow> Inl (FailedToGeneratePartiesIDs err)
      | Inr (currentPartyID, groupPartiesIDs) \<Rightarrow>
          let params = \<lparr> parties = SortPartyIDs groupPartiesIDs,
                          partyID = currentPartyID,
                          partyCount = int (length groupPartiesIDs),
                          threshold = sint thresh \<rparr>
          in (case tssPreParams of
                None \<Rightarrow> Inl NilPreParams
              | Some pp \<Rightarrow>
                  (case bridgeStart groupMembersIDs params of
                     Some err \<Rightarrow> Inl (FailedToConnectBridgeNetwork err)
                   | None \<Rightarrow> Inr (params, pp))))"

text \<open>
  \<open>InitializeKeyGeneration\<close>: the size check comes first, before any party is built.
  The returned \<open>Member\<close> is represented by its party.
\<close>

definition InitializeKeyGeneration ::
  "(MemberID \<Rightarrow> int) \<Rightarrow> (MemberID list \<Rightarrow> Parameters \<Rightarrow> string option)
     \<Rightarrow> MemberID \<Rightarrow> MemberID list \<Rightarrow> 64 word \<Rightarrow> 'pp option
     \<Rightarrow> tss_error + (Parameters \<times> 'pp)" where
  "InitializeKeyGeneration bigInt bridgeStart memberID groupMemberIDs thresh tssPreParams =
     (if int (length groupMemberIDs) \<le> sint thresh
      then Inl (GroupSizeNotGreaterThanThreshold (int (length groupMemberIDs)) (sint thresh))
      else case initializeKeyGenerationParty bigInt bridgeStart memberID groupMemberIDs
                  thresh tssPreParams of
             Inl err \<Rightarrow> Inl (FailedToInitializeKeyGenerationMember err)
           | Inr member \<Rightarrow> Inr member)"

text \<open>
  \<open>GenerateThresholdSigner\<close>, from its entry to the return of \<open>initializeKeyGeneration\<close>
  (the part that precedes the synchronisation barrier). The dishonest threshold arrives
  as a \<open>uint\<close> and is converted with \<open>int(dishonestThreshold)\<close>, which reinterprets the
  64 bits as a signed number. \<open>GenerateTSSPreParams\<close> runs the library's generator, whose
  result is the parameter \<open>generated\<close>; \<open>initializeKeyGeneration\<close> (lower case, taking
  the group) is not among the files at hand and is the parameter \<open>initKeyGen\<close>.
\<close>

record groupInfo =
  groupID :: string
  memberID :: MemberID
  groupMemberIDs :: "MemberID list"
  dishonestThreshold :: int

definition GenerateTSSPreParams :: "string + 'pp \<Rightarrow> tss_error + 'pp" where
  "GenerateTSSPreParams generated =
     (case generated of
        Inl err \<Rightarrow> Inl (FailedToGeneratePreParams err)
      | Inr preParams \<Rightarrow> Inr preParams)"

definition GenerateThresholdSigner_init ::
  "(string + 'pp) \<Rightarrow> (groupInfo \<Rightarrow> 'pp \<Rightarrow> tss_error + 'ks)
     \<Rightarrow> string \<Rightarrow> MemberID \<Rightarrow> MemberID list \<Rightarrow> 64 word \<Rightarrow> 'pp option
     \<Rightarrow> tss_error + 'ks" where
  "GenerateThresholdSigner_init generated initKeyGen gid mid memberIDs dT tssPreParams =
     (if int (length memberIDs) < 1 then Inl GroupWithoutMembers
      else if int (length memberIDs) \<le> sint dT
      then Inl (GroupSizeNotGreaterThanDishonestThreshold (int (length memberIDs)) (unat dT))
      else
        let group = \<lparr> groupID = gid, memberID = mid, groupMemberIDs = memberIDs,
                       dishonestThreshold = sint dT \<rparr>
        in case (case tssPreParams of
                   None \<Rightarrow> GenerateTSSPreParams generated
                 | Some pp \<Rightarrow> Inr pp) of
             Inl err \<Rightarrow> Inl err
           | Inr pp \<Rightarrow> initKeyGen group pp)"

section \<open>The keep contract (\<open>ECDSAKeep.sol\<close>)\<close>

text \<open>
  Solidity's \<open>address\<close> is a 160-bit word, \<open>bytes32\<close> and \<open>uint256\<close> are 256-bit words,
  \<open>uint8\<close> is a byte. The storage of the contract is a record; a failed \<open>require\<close>
  reverts the call, which is the result \<open>Inl\<close> of the revert message and leaves the
  storage as it was. The events a successful call emits are returned with the new storage.
  The precompiles \<open>keccak256\<close> and \<open>ecrecover\<close> are parameters.
\<close>

type_synonym address = "160 word"
type_synonym bytes32 = "256 word"

record ECDSAKeep =
  owner :: address
  members :: "address list"
  honestThreshold :: "256 word"
  publicKey :: "byte list"
  currentSigningStartBlock :: "256 word"

datatype keep_event =
    PublicKeyPublished "byte list"
  | SignatureRequested bytes32
  | SignatureSubmitted bytes32 bytes32 bytes32 byte

definition isSigningInProgress :: "ECDSAKeep \<Rightarrow> bool" where
  "isSigningInProgress keep = (currentSigningStartBlock keep \<noteq> 0)"

definition publicKeyToAddress :: "(byte list \<Rightarrow> 256 word) \<Rightarrow> byte list \<Rightarrow> address" where
  "publicKeyToAddress keccak256 pk = ucast (keccak256 pk)"

text \<open>
  \<open>submitSignature\<close> with its modifier \<open>onlyMember\<close>. \<open>uint8 _v = 27 + _recoveryID\<close> is
  an addition of 8-bit words.
\<close>

definition submitSignature ::
  "(byte list \<Rightarrow> 256 word) \<Rightarrow> (bytes32 \<Rightarrow> byte \<Rightarrow> bytes32 \<Rightarrow> bytes32 \<Rightarrow> address)
     \<Rightarrow> address \<Rightarrow> ECDSAKeep \<Rightarrow> bytes32 \<Rightarrow> bytes32 \<Rightarrow> bytes32 \<Rightarrow> byte
     \<Rightarrow> string + (ECDSAKeep \<times> keep_event list)" where
  "submitSignature keccak256 ecrecover sender keep digest r s recoveryID =
     (if sender \<notin> set (members keep) then Inl ''Caller is not the keep member''
      else if \<not> isSigningInProgress keep then Inl ''Signature has been already submitted''
      else if \<not> recoveryID < 4 then Inl ''Recovery ID must be one of {0, 1, 2, 3}''
      else
        let v = 27 + recoveryID
        in if publicKeyToAddress keccak256 (publicKey keep) \<noteq> ecrecover digest v r s
           then Inl ''Invalid signature''
           else Inr (keep\<lparr>currentSigningStartBlock := 0\<rparr>,
                     [SignatureSubmitted digest r s recoveryID]))"

section \<open>The in-memory chain (package local)\<close>

text \<open>
  A keep address is a 20-byte array, here a list of bytes; its \<open>String()\<close> method
  belongs to the Ethereum library and is the parameter \<open>addrString\<close> of the functions
  that format an address. \<open>hexAddress\<close> is the rendering used in the examples: \<open>0x\<close>
  and two lower-case hexadecimal digits per byte. Handlers are function values; a
  handler is identified by a number, and starting a goroutine that calls handler
  \<open>h\<close> with event \<open>e\<close> is recorded as the pair \<open>(h, e)\<close> in the list of spawned calls.
\<close>

type_synonym KeepAddress = "byte list"
type_synonym handler = nat

definition hexDigit :: "nat \<Rightarrow> char" where
  "hexDigit n = ''0123456789abcdef'' ! n"

definition hexByte :: "byte \<Rightarrow> string" where
  "hexByte b = [hexDigit (unat b div 16), hexDigit (unat b mod 16)]"

definition hexAddress :: "KeepAddress \<Rightarrow> string" where
  "hexAddress a = ''0x'' @ concat (map hexByte a)"

record localKeep =
  signatureRequestedHandlers :: "(int \<times> handler) list"
  keepPublicKey :: "byte list"

record ECDSAKeepCreatedEvent =
  KeepAddress :: KeepAddress
  Members :: "KeepAddress list"

record SignatureRequestedEvent =
  Digest :: "byte list"

record LocalChain =
  keeps :: "KeepAddress \<rightharpoonup> localKeep"
  keepCreatedHandlers :: "handler list"

record 'e call_result =
  returned_error :: "string option"
  chain_after :: LocalChain
  spawned :: "(handler \<times> 'e) list"

text \<open>
  \<open>LocalChain.CreateKeep\<close>: an address that is already a key of \<open>keeps\<close> ends the call
  with an error before anything is written; otherwise the new keep is stored with empty
  handlers and the zero value of \<open>[64]byte\<close> as public key, and one goroutine per
  registered keep-created handler is started on the event.
\<close>

definition CreateKeep ::
  "(KeepAddress \<Rightarrow> string) \<Rightarrow> LocalChain \<Rightarrow> KeepAddress \<Rightarrow> KeepAddress list
     \<Rightarrow> ECDSAKeepCreatedEvent call_result" where
  "CreateKeep addrString c keepAddress memberAddresses =
     (case keeps c keepAddress of
        Some _ \<Rightarrow>
          \<lparr> returned_error =
              Some (''keep already exists for address ['' @ addrString keepAddress @ '']''),
            chain_after = c, spawned = [] \<rparr>
      | None \<Rightarrow>
          let localKeep = \<lparr> signatureRequestedHandlers = [], keepPublicKey = replicate 64 0 \<rparr>;
              c' = c\<lparr>keeps := (keeps c)(keepAddress \<mapsto> localKeep)\<rparr>;
              keepCreatedEvent = \<lparr> KeepAddress = keepAddress, Members = memberAddresses \<rparr>
          in \<lparr> returned_error = None, chain_after = c',
               spawned = map (\<lambda>h. (h, keepCreatedEvent)) (keepCreatedHandlers c') \<rparr>)"

text \<open>
  Modelled from the spec: \<open>requestSignature\<close> of the in-memory chain is not among the
  files at hand; only its test is. The spec's scenario ``Signature-requested for unknown
  keep'' gives the error text and says there are no side effects; the tests give the
  other branch: for a known keep the call succeeds and every signature-requested handler
  of that keep receives an event carrying the digest.
\<close>

definition requestSignature ::
  "(KeepAddress \<Rightarrow> string) \<Rightarrow> LocalChain \<Rightarrow> KeepAddress \<Rightarrow> byte list
     \<Rightarrow> SignatureRequestedEvent call_result" where
  "requestSignature addrString c keepAddress digest =
     (case keeps c keepAddress of
        None \<Rightarrow>
          \<lparr> returned_error =
              Some (''failed to find keep with address: ['' @ addrString keepAddress @ '']''),
            chain_after = c, spawned = [] \<rparr>
      | Some keep \<Rightarrow>
          \<lparr> returned_error = None, chain_after = c,
            spawned = map (\<lambda>(_, h). (h, \<lparr> Digest = digest \<rparr>)) (signatureRequestedHandlers keep) \<rparr>)"

definition initializeLocalChain :: LocalChain where
  "initializeLocalChain = \<lparr> keeps = Map.empty, keepCreatedHandlers = [] \<rparr>"

section \<open>The block counter (package ethereum)\<close>

text \<open>
  Channels and watchers are heap objects; each is identified by a number. The record
  holds the fields of \<open>ethereumBlockCounter\<close> (\<open>latestBlockHeight\<close>, \<open>waiters\<close>,
  \<open>watchers\<close>), the position of the \<open>receiveBlocks\<close> goroutine in its loops (\<open>pc\<close>),
  and what the goroutines have done to the outside: the next watcher to be allocated,
  the watcher channels closed so far, the sends started to waiter channels (\<open>woken\<close>),
  the heights that watcher channels have accepted (\<open>delivered\<close>), and the panic that
  ended the process, if any.
\<close>

type_synonym chan = nat
type_synonym watcher = nat

text \<open>
  \<open>receiveBlocks\<close> is idle between two receives from \<open>subscriptionChannel\<close>; inside
  the inner \<open>for\<close> it is either at the loop test with the current \<open>unseenBlockNumber\<close>
  and \<open>receivedBlockHeight\<close>, or between its two critical sections, with the waiters of
  \<open>height\<close> taken and the watchers still to be notified.
\<close>

datatype receive_pc =
    Idle
  | LoopHead uint64 uint64
  | Dispatch uint64 uint64

record blockCounter =
  latestBlockHeight :: uint64
  waiters :: "uint64 \<rightharpoonup> chan list"
  watchers :: "watcher list"
  pc :: receive_pc
  nextWatcher :: watcher
  closedChannels :: "watcher list"
  woken :: "(chan \<times> uint64) list"
  delivered :: "(watcher \<times> uint64) list"
  panic :: "go_panic option"

text \<open>
  What the rest of the program is doing when the watchers are notified: whether the
  context of a watcher has been cancelled (\<open>watcher.ctx.Err() != nil\<close>) and whether a
  receiver is blocked on its unbuffered channel, so that the \<open>select\<close> takes the send
  rather than the \<open>default\<close>.
\<close>

record dispatch_env =
  ctxErr :: "watcher \<Rightarrow> bool"
  receiving :: "watcher \<Rightarrow> bool"

text \<open>\<open>createBlockCounter\<close>, once the start-up block is known.\<close>

definition createBlockCounter :: "uint64 \<Rightarrow> blockCounter" where
  "createBlockCounter startupBlock =
     \<lparr> latestBlockHeight = startupBlock, waiters = Map.empty, watchers = [],
       pc = Idle, nextWatcher = 0, closedChannels = [], woken = [], delivered = [],
       panic = None \<rparr>"

text \<open>
  \<open>WatchBlocks\<close>: a new watcher is allocated and appended under the mutex; its channel
  is returned.
\<close>

definition WatchBlocks :: "blockCounter \<Rightarrow> watcher \<times> blockCounter" where
  "WatchBlocks s =
     (let w = nextWatcher s
      in (w, s\<lparr>watchers := watchers s @ [w], nextWatcher := Suc w\<rparr>))"

text \<open>
  The goroutine \<open>WatchBlocks\<close> starts, after \<open>ctx.Done()\<close>: the first occurrence of the
  watcher is overwritten with the last element, the slice is shortened by one, and the
  loop breaks.
\<close>

function removeWatcher_from :: "nat \<Rightarrow> watcher \<Rightarrow> watcher list \<Rightarrow> watcher list" where
  "removeWatcher_from i w ws =
     (if i < length ws
      then (if ws ! i = w then butlast (ws[i := last ws])
            else removeWatcher_from (Suc i) w ws)
      else ws)"
  by pat_completeness auto
termination
  by (relation "measure (\<lambda>(i, w, ws). length ws - i)") auto

declare removeWatcher_from.simps [simp del]

definition removeWatcher :: "watcher \<Rightarrow> watcher list \<Rightarrow> watcher list" where
  "removeWatcher w ws = removeWatcher_from 0 w ws"

text \<open>
  The first critical section of an iteration, with the goroutines it starts:
  \<open>latestBlockHeight++\<close>, the waiters of \<open>height\<close> are read and their entry is deleted,
  then one goroutine per waiter is started to send \<open>height\<close>.
\<close>

definition waitersAt :: "blockCounter \<Rightarrow> uint64 \<Rightarrow> chan list" where
  "waitersAt s height = (case waiters s height of None \<Rightarrow> [] | Some cs \<Rightarrow> cs)"

definition takeWaiters :: "uint64 \<Rightarrow> blockCounter \<Rightarrow> blockCounter" where
  "takeWaiters height s =
     s\<lparr> latestBlockHeight := latestBlockHeight s + 1,
        waiters := (waiters s)(height := None),
        woken := woken s @ map (\<lambda>waiter. (waiter, height)) (waitersAt s height) \<rparr>"

text \<open>
  The second part of an iteration, over the copy of \<open>watchers\<close>: a cancelled watcher
  has its channel closed (closing a closed channel panics) and is skipped; otherwise
  the height is sent if a receiver is waiting and dropped if not (a send on a closed
  channel panics).
\<close>

fun notifyWatchers ::
  "dispatch_env \<Rightarrow> uint64 \<Rightarrow> watcher list \<Rightarrow> blockCounter \<Rightarrow> blockCounter" where
  "notifyWatchers env height [] s = s"
| "notifyWatchers env height (w # ws) s =
     (if ctxErr env w
      then (if w \<in> set (closedChannels s) then s\<lparr>panic := Some CloseOfClosedChannel\<rparr>
            else notifyWatchers env height ws (s\<lparr>closedChannels := w # closedChannels s\<rparr>))
      else if w \<in> set (closedChannels s) then s\<lparr>panic := Some SendOnClosedChannel\<rparr>
      else if receiving env w
      then notifyWatchers env height ws (s\<lparr>delivered := delivered s @ [(w, height)]\<rparr>)
      else notifyWatchers env height ws s)"

text \<open>
  The events that move the counter: a height arrives on \<open>subscriptionChannel\<close> (taken
  only when \<open>receiveBlocks\<close> is idle; the value is the \<open>Uint64()\<close> of the block number),
  \<open>receiveBlocks\<close> runs its next section, \<open>WatchBlocks\<close> is called, or the goroutine of
  a cancelled watcher removes it. After a panic nothing moves.
\<close>

datatype event =
    NewBlock uint64
  | Step dispatch_env
  | Watch
  | ContextDone watcher

definition receiveBlocks_step :: "dispatch_env \<Rightarrow> blockCounter \<Rightarrow> blockCounter" where
  "receiveBlocks_step env s =
     (case pc s of
        Idle \<Rightarrow> s
      | LoopHead unseenBlockNumber receivedBlockHeight \<Rightarrow>
          if unseenBlockNumber \<le> receivedBlockHeight
          then (takeWaiters unseenBlockNumber s)
                 \<lparr>pc := Dispatch unseenBlockNumber receivedBlockHeight\<rparr>
          else s\<lparr>pc := Idle\<rparr>
      | Dispatch height receivedBlockHeight \<Rightarrow>
          (notifyWatchers env height (watchers s) s)
            \<lparr>pc := LoopHead (height + 1) receivedBlockHeight\<rparr>)"

definition receive_block :: "uint64 \<Rightarrow> blockCounter \<Rightarrow> blockCounter" where
  "receive_block receivedBlockHeight s =
     (case pc s of
        Idle \<Rightarrow>
          if receivedBlockHeight = latestBlockHeight s then s
          else s\<lparr>pc := LoopHead (latestBlockHeight s + 1) receivedBlockHeight\<rparr>
      | _ \<Rightarrow> s)"

definition step :: "event \<Rightarrow> blockCounter \<Rightarrow> blockCounter" where
  "step e s =
     (if panic s \<noteq> None then s
      else case e of
        NewBlock receivedBlockHeight \<Rightarrow> receive_block receivedBlockHeight s
      | Step env \<Rightarrow> receiveBlocks_step env s
      | Watch \<Rightarrow> snd (WatchBlocks s)
      | ContextDone w \<Rightarrow> s\<lparr>watchers := removeWatcher w (watchers s)\<rparr>)"

fun run :: "event list \<Rightarrow> blockCounter \<Rightarrow> blockCounter" where
  "run [] s = s"
| "run (e # es) s = run es (step e s)"

text \<open>The heights a watcher has accepted, in the order of delivery.\<close>

definition heightsOf :: "watcher \<Rightarrow> (watcher \<times> uint64) list \<Rightarrow> uint64 list" where
  "heightsOf w log = map snd (filter (\<lambda>d. fst d = w) log)"

text \<open>
  The largest \<open>uint64\<close>. An execution stays clear of wrap-around when the start-up
  height and every height taken from \<open>subscriptionChannel\<close> are below it.
\<close>

definition maxUint64 :: uint64 where
  "maxUint64 = - 1"

fun belowMax :: "event \<Rightarrow> bool" where
  "belowMax (NewBlock h) = (h < maxUint64)"
| "belowMax _ = True"

text \<open>
  The watchers that accept the height in one pass of \<open>notifyWatchers\<close>, given the
  channels closed before the pass: the pass stops at a panic, skips cancelled watchers
  and watchers with no receiver.
\<close>

fun acceptedBy :: "dispatch_env \<Rightarrow> watcher list \<Rightarrow> watcher list \<Rightarrow> watcher list" where
  "acceptedBy env [] closed = []"
| "acceptedBy env (w # ws) closed =
     (if ctxErr env w
      then (if w \<in> set closed then [] else acceptedBy env ws (w # closed))
      else if w \<in> set closed then []
      else if receiving env w then w # acceptedBy env ws closed
      else acceptedBy env ws closed)"

fun isNewBlock :: "event \<Rightarrow> bool" where
  "isNewBlock (NewBlock h) = True"
| "isNewBlock _ = False"

text \<open>
  A state of an execution that has stayed clear of wrap-around: the latest height is
  below the largest \<open>uint64\<close>, and inside the inner loop the loop variable is where the
  code left it relative to \<open>latestBlockHeight\<close> (one ahead at the loop test, equal to it
  once the waiters are taken), with a received height below the largest \<open>uint64\<close>.
\<close>

definition noWrap :: "blockCounter \<Rightarrow> bool" where
  "noWrap s =
     (latestBlockHeight s < maxUint64 \<and>
      (case pc s of
         Idle \<Rightarrow> True
       | LoopHead unseen received \<Rightarrow>
           unseen = latestBlockHeight s + 1 \<and> received < maxUint64
       | Dispatch height received \<Rightarrow>
           height = latestBlockHeight s \<and> received < maxUint64))"

text \<open>
  Every waiter channel is registered once: no channel occurs twice in the waiter map,
  none of the channels in the map has been woken yet, and no channel was woken twice.
\<close>

definition registeredOnce :: "blockCounter \<Rightarrow> bool" where
  "registeredOnce s =
     ((\<forall>h. distinct (waitersAt s h)) \<and>
      (\<forall>h h'. h \<noteq> h' \<longrightarrow> set (waitersAt s h) \<inter> set (waitersAt s h') = {}) \<and>
      (\<forall>h. set (waitersAt s h) \<inter> fst ` set (woken s) = {}) \<and>
      distinct (map fst (woken s)))"

text \<open>
  The watchers are distinct objects allocated by \<open>WatchBlocks\<close>; no delivered height is
  above the latest height (and all are below the height being dispatched, if one is);
  every watcher has received its heights in strictly increasing order.
\<close>

definition deliveredInOrder :: "blockCounter \<Rightarrow> bool" where
  "deliveredInOrder s =
     (distinct (watchers s) \<and>
      (\<forall>w \<in> set (watchers s). w < nextWatcher s) \<and>
      (\<forall>d \<in> set (delivered s).
         snd d \<le> latestBlockHeight s \<and>
         (case pc s of Dispatch height received \<Rightarrow> snd d < height | _ \<Rightarrow> True)) \<and>
      (\<forall>w. sorted_wrt (<) (heightsOf w (delivered s))))"

definition inDispatch :: "blockCounter \<Rightarrow> bool" where
  "inDispatch s = (case pc s of Dispatch height received \<Rightarrow> True | _ \<Rightarrow> False)"

text \<open>
  Nothing has been woken or taken from the waiter map since state \<open>s\<close>, and
  \<open>receiveBlocks\<close> is idle or about to leave its inner loop.
\<close>

definition quietSince :: "blockCounter \<Rightarrow> blockCounter \<Rightarrow> bool" where
  "quietSince s t =
     (woken t = woken s \<and> waiters t = waiters s \<and>
      latestBlockHeight t = latestBlockHeight s \<and>
      (case pc t of Idle \<Rightarrow> True | LoopHead u r \<Rightarrow> \<not> u \<le> r | Dispatch h r \<Rightarrow> False))"

text \<open>Two environments and a counter with three waiters, for the examples.\<close>

definition allReceiving :: dispatch_env where
  "allReceiving = \<lparr> ctxErr = (\<lambda>w. False), receiving = (\<lambda>w. True) \<rparr>"

definition onlyFirstReceiving :: dispatch_env where
  "onlyFirstReceiving = \<lparr> ctxErr = (\<lambda>w. False), receiving = (\<lambda>w. w = 0) \<rparr>"

definition counterWithWaiters :: blockCounter where
  "counterWithWaiters =
     (createBlockCounter 100)\<lparr>waiters := [103 \<mapsto> [1, 2], 105 \<mapsto> [3]]\<rparr>"

section \<open>The subscription to new blocks (\<open>subscribeBlocks\<close>)\<close>

text \<open>
  What the goroutines of \<open>subscribeBlocks\<close> do is recorded as a list of actions:
  log lines, the start of a \<open>subscribe\<close> goroutine, a block number sent on
  \<open>ebc.subscriptionChannel\<close>, \<open>subscription.Unsubscribe()\<close>, an error sent on
  \<open>errorChan\<close>, and a \<open>time.Sleep\<close> with its duration in seconds.
\<close>

datatype action =
    LogDebug string
  | LogWarning string
  | GoSubscribe
  | Forward int
  | Unsubscribe
  | SendError string
  | Sleep nat

text \<open>
  What the Ethereum client does with one call of \<open>subscribe\<close> is the environment's
  choice: \<open>SubscribeNewHead\<close> fails with an error; or it succeeds, some headers arrive
  and then the subscription reports an error; or it succeeds and is still running, having
  delivered some headers.
\<close>

datatype subscription =
    CouldNotSubscribe string
  | Interrupted "int list" string
  | Running "int list"

fun subscribe :: "subscription \<Rightarrow> action list" where
  "subscribe (CouldNotSubscribe err) =
     [LogDebug ''subscribing to new blocks'',
      LogWarning (''could not create subscription to new blocks: ['' @ err @ '']''),
      SendError err]"
| "subscribe (Interrupted numbers err) =
     LogDebug ''subscribing to new blocks'' # map Forward numbers @
     [LogWarning (''subscription to new blocks interrupted: ['' @ err @ '']''),
      Unsubscribe,
      SendError err]"
| "subscribe (Running numbers) =
     LogDebug ''subscribing to new blocks'' # map Forward numbers"

fun failed :: "subscription \<Rightarrow> bool" where
  "failed (Running numbers) = False"
| "failed _ = True"

text \<open>
  The goroutine \<open>for { go subscribe(); <-errorChan; time.Sleep(5 * time.Second) }\<close>,
  against the list of what each successive subscription does. The receive from
  \<open>errorChan\<close> returns only when the subscription has failed; behind a running
  subscription the loop waits.
\<close>

fun resubscribeLoop :: "subscription list \<Rightarrow> action list" where
  "resubscribeLoop [] = []"
| "resubscribeLoop (sub # rest) =
     GoSubscribe # subscribe sub @
     (if failed sub then Sleep 5 # resubscribeLoop rest else [])"

text \<open>
  The caller's side of \<open>subscribeBlocks\<close>: the latest block is fetched and its number is
  sent on the subscription channel, or the error of the fetch is returned.
\<close>

definition subscribeBlocks :: "string + int \<Rightarrow> string option \<times> action list" where
  "subscribeBlocks lastBlock =
     (case lastBlock of
        Inl err \<Rightarrow> (Some err, [])
      | Inr number \<Rightarrow> (None, [Forward number]))"

text \<open>Readings of a list of actions.\<close>

fun sleepOf :: "action \<Rightarrow> nat list" where
  "sleepOf (Sleep d) = [d]"
| "sleepOf _ = []"

fun forwardOf :: "action \<Rightarrow> int list" where
  "forwardOf (Forward n) = [n]"
| "forwardOf _ = []"

fun warningOf :: "action \<Rightarrow> string list" where
  "warningOf (LogWarning m) = [m]"
| "warningOf _ = []"

definition delays :: "action list \<Rightarrow> nat list" where
  "delays as = concat (map sleepOf as)"

definition forwarded :: "action list \<Rightarrow> int list" where
  "forwarded as = concat (map forwardOf as)"

definition warnings :: "action list \<Rightarrow> string list" where
  "warnings as = concat (map warningOf as)"

definition subscriptionsStarted :: "action list \<Rightarrow> nat" where
  "subscriptionsStarted as = length (filter (\<lambda>a. a = GoSubscribe) as)"

fun numbersOf :: "subscription \<Rightarrow> int list" where
  "numbersOf (CouldNotSubscribe err) = []"
| "numbersOf (Interrupted numbers err) = numbers"
| "numbersOf (Running numbers) = numbers"

text \<open>
  The spec's wording, ``bounded exponential backoff'' from a first delay: the delay
  before retry \<open>i\<close> is the first delay times \<open>factor ^ i\<close>, capped at a bound.
\<close>

definition exponentialBackoff :: "nat \<Rightarrow> nat \<Rightarrow> nat \<Rightarrow> nat list \<Rightarrow> bool" where
  "exponentialBackoff first factor bound ds =
     (\<forall>i < length ds. ds ! i = min bound (first * factor ^ i))"

section \<open>The barrier before the protocol starts (package tss)\<close>

text \<open>
  \<open>GenerateThresholdSigner\<close> and \<open>CalculateSignature\<close> separate initialisation from the
  start of the party by \<open>Sync.Done(); Sync.Wait()\<close> on a package-level
  \<open>sync.WaitGroup\<close> (\<open>KeyGenSync\<close>, respectively \<open>SigningSync\<close>), shared by the members
  that run in the process. A wait group is a counter: \<open>Done\<close> decrements it and panics
  if it becomes negative, \<open>Wait\<close> returns once it is zero. The counter is raised by
  whoever starts the members, outside the files at hand; its initial value is a
  parameter.

  Each member is at one of these points of the function: still initialising, returned
  with the error of the initialisation, initialised (about to call \<open>Done\<close>), inside
  \<open>Wait\<close>, or past the barrier, where \<open>generateKey\<close> (respectively \<open>sign\<close>) starts the party.
\<close>

datatype member_pc = Initializing | InitFailed | Initialized | Waiting | Started

record sync_session =
  waitGroup :: int
  memberAt :: "member_pc list"
  negativeCounter :: bool

datatype sync_event =
    InitReturns nat bool
  | DoneCalled nat
  | WaitReturns nat

definition startSession :: "int \<Rightarrow> nat \<Rightarrow> sync_session" where
  "startSession added n =
     \<lparr> waitGroup = added, memberAt = replicate n Initializing, negativeCounter = False \<rparr>"

text \<open>
  One move of one member. The initialisation of member \<open>i\<close> returns, with or without
  an error; member \<open>i\<close> calls \<open>Done\<close>; the \<open>Wait\<close> of member \<open>i\<close> returns, which it does
  only when the counter is zero. A move that the member cannot make leaves the session as
  it is, and so does every move after a panic.
\<close>

definition sync_step :: "sync_event \<Rightarrow> sync_session \<Rightarrow> sync_session" where
  "sync_step e s =
     (if negativeCounter s then s
      else case e of
        InitReturns i ok \<Rightarrow>
          if i < length (memberAt s) \<and> memberAt s ! i = Initializing
          then s\<lparr>memberAt := (memberAt s)[i := if ok then Initialized else InitFailed]\<rparr>
          else s
      | DoneCalled i \<Rightarrow>
          if i < length (memberAt s) \<and> memberAt s ! i = Initialized
          then (if waitGroup s - 1 < 0 then s\<lparr>negativeCounter := True\<rparr>
                else s\<lparr>waitGroup := waitGroup s - 1, memberAt := (memberAt s)[i := Waiting]\<rparr>)
          else s
      | WaitReturns i \<Rightarrow>
          if i < length (memberAt s) \<and> memberAt s ! i = Waiting \<and> waitGroup s = 0
          then s\<lparr>memberAt := (memberAt s)[i := Started]\<rparr>
          else s)"

fun sync_run :: "sync_event list \<Rightarrow> sync_session \<Rightarrow> sync_session" where
  "sync_run [] s = s"
| "sync_run (e # es) s = sync_run es (sync_step e s)"

text \<open>A member that has not called \<open>Done\<close>, and the number of such members.\<close>

fun beforeDone :: "member_pc \<Rightarrow> bool" where
  "beforeDone Initializing = True"
| "beforeDone InitFailed = True"
| "beforeDone Initialized = True"
| "beforeDone _ = False"

definition pending :: "sync_session \<Rightarrow> nat" where
  "pending s = length (filter beforeDone (memberAt s))"

definition barrierInv :: "sync_session \<Rightarrow> bool" where
  "barrierInv s =
     (waitGroup s = int (pending s) \<and> \<not> negativeCounter s \<and>
      (Started \<in> set (memberAt s) \<longrightarrow> waitGroup s = 0))"

section \<open>Verification: signature conversion\<close>

lemma SetBytes_from_sum:
  "SetBytes_from acc bs =
     acc * 256 ^ length bs + (\<Sum>i<length bs. uint (bs ! i) * 256 ^ (length bs - Suc i))"
proof (induction bs arbitrary: acc)
  case Nil
  show ?case by simp
next
  case (Cons x xs)
  have "(\<Sum>i<length (x # xs). uint ((x # xs) ! i) * 256 ^ (length (x # xs) - Suc i))
      = uint x * 256 ^ length xs + (\<Sum>i<length xs. uint (xs ! i) * 256 ^ (length xs - Suc i))"
    by (simp add: sum.lessThan_Suc_shift del: sum.lessThan_Suc)
  then show ?case
    by (simp add: Cons.IH algebra_simps del: sum.lessThan_Suc)
qed

lemma SetBytes_bigEndian: "SetBytes bs = bigEndianValue bs"
  by (simp add: SetBytes_def bigEndianValue_def SetBytes_from_sum)

lemma uint_ucast_byte: "uint (ucast (b :: byte) :: 64 word) = uint b"
  by (simp add: uint_up_ucast is_up)

lemma recoveryInt_uint: "recoveryInt b = uint b"
proof -
  have "uint b < 2 ^ 8"
    using uint_bounded [of b] by simp
  then have lt: "uint b < 2 ^ 63"
    by simp
  have "0 \<le> uint b"
    by simp
  moreover have "- (2 ^ 63) \<le> (0 :: int)"
    by simp
  ultimately have ge: "- (2 ^ 63) \<le> uint b"
    by (rule order_trans [rotated])
  have "sint (ucast b :: 64 word) = signed_take_bit 63 (uint (ucast b :: 64 word))"
    by (simp add: sint_uint)
  also have "\<dots> = signed_take_bit 63 (uint b)"
    by (simp only: uint_ucast_byte)
  also have "\<dots> = uint b"
    using lt ge by (simp only: signed_take_bit_int_eq_self_iff)
  finally show ?thesis
    by (simp add: recoveryInt_def)
qed

lemma low_8_bits_of_byte: "uint ((b :: byte) AND 255) = uint b"
proof -
  have "(255 :: byte) = - 1"
    by simp
  then show ?thesis
    by (simp only: word_bw_comms word_log_esimps)
qed

text \<open>
  Claim C1. Whenever a signing session returns a signature, it came from the end channel,
  its \<open>RecoveryID\<close> is the integer value of the low 8 bits of the first recovery byte
  (a value from 0 to 255, with no 27 added), and \<open>R\<close> and \<open>S\<close> are the big-endian
  values of the library's R and S byte slices.
\<close>

theorem C1_sign_output:
  assumes "sign partyIsNil outcome = Inr out"
  shows "\<exists>tssSignature b0 rest.
           outcome = EndChan tssSignature \<and>
           GetSignatureRecovery tssSignature = b0 # rest \<and>
           convertSignatureTSStoECDSA tssSignature = Inr out \<and>
           RecoveryID out = uint (b0 AND 255) \<and>
           RecoveryID out \<noteq> uint b0 + 27 \<and>
           R out = bigEndianValue (GetR tssSignature) \<and>
           S out = bigEndianValue (GetS tssSignature)"
proof -
  from assms obtain sg where o: "outcome = EndChan sg"
      and c: "convertSignatureTSStoECDSA sg = Inr out"
    by (auto simp: sign_def split: if_splits party_outcome.splits sum.splits)
  from c obtain b0 rest where rb: "GetSignatureRecovery sg = b0 # rest"
      and out: "out = \<lparr> R = SetBytes (GetR sg), S = SetBytes (GetS sg),
                         RecoveryID = recoveryInt b0 \<rparr>"
    by (auto simp: convertSignatureTSStoECDSA_def split: list.splits)
  have "RecoveryID out = uint (b0 AND 255)"
    by (simp add: out recoveryInt_uint low_8_bits_of_byte)
  moreover have "RecoveryID out \<noteq> uint b0 + 27"
    by (simp add: out recoveryInt_uint)
  moreover have "R out = bigEndianValue (GetR sg)" "S out = bigEndianValue (GetS sg)"
    by (simp_all add: out SetBytes_bigEndian)
  ultimately show ?thesis
    using o rb c by blast
qed

theorem C1_sign_output_witness:
  "sign False (EndChan \<lparr> GetSignatureRecovery = [1], GetR = [1, 0], GetS = [2] \<rparr>)
     = Inr \<lparr> R = 256, S = 2, RecoveryID = 1 \<rparr> \<and>
   (\<exists>tssSignature b0 rest.
      EndChan \<lparr> GetSignatureRecovery = [1], GetR = [1, 0], GetS = [2] \<rparr> = EndChan tssSignature \<and>
      GetSignatureRecovery tssSignature = b0 # rest \<and>
      convertSignatureTSStoECDSA tssSignature = Inr \<lparr> R = 256, S = 2, RecoveryID = 1 \<rparr> \<and>
      RecoveryID \<lparr> R = 256, S = 2, RecoveryID = 1 \<rparr> = uint (b0 AND 255) \<and>
      RecoveryID \<lparr> R = 256, S = 2, RecoveryID = 1 \<rparr> \<noteq> uint b0 + 27 \<and>
      R \<lparr> R = 256, S = 2, RecoveryID = 1 \<rparr> = bigEndianValue (GetR tssSignature) \<and>
      S \<lparr> R = 256, S = 2, RecoveryID = 1 \<rparr> = bigEndianValue (GetS tssSignature))"
proof -
  have ev: "sign False (EndChan \<lparr> GetSignatureRecovery = [1], GetR = [1, 0], GetS = [2] \<rparr>)
     = Inr \<lparr> R = 256, S = 2, RecoveryID = 1 \<rparr>"
    by (simp add: sign_def convertSignatureTSStoECDSA_def SetBytes_def recoveryInt_def)
  from C1_sign_output [OF ev] ev show ?thesis
    by simp
qed

section \<open>Verification: party ids and the group size check\<close>

lemma generatePartiesIDs_loop_error:
  assumes "\<exists>m \<in> set ms. bigInt m \<le> 0"
  shows "\<exists>m \<in> set ms. bigInt m \<le> 0 \<and>
           generatePartiesIDs_loop bigInt this ms tp acc = Inl (MemberIDNotGreaterThanZero (bigInt m))"
  using assms
proof (induction ms arbitrary: tp acc)
  case Nil
  then show ?case by simp
next
  case (Cons a ms)
  show ?case
  proof (cases "bigInt a \<le> 0")
    case True
    then show ?thesis by auto
  next
    case False
    with Cons.prems have "\<exists>m \<in> set ms. bigInt m \<le> 0"
      by auto
    from Cons.IH [OF this] False show ?thesis
      by (auto simp: Let_def)
  qed
qed

lemma generatePartiesIDs_loop_ok:
  assumes "\<forall>m \<in> set ms. 0 < bigInt m"
  shows "generatePartiesIDs_loop bigInt this ms tp acc =
           Inr (if this \<in> set ms then Some (NewPartyID this [] (bigInt this)) else tp,
                acc @ map (\<lambda>m. NewPartyID m [] (bigInt m)) ms)"
  using assms
proof (induction ms arbitrary: tp acc)
  case Nil
  then show ?case by simp
next
  case (Cons a ms)
  then have pos: "\<not> bigInt a \<le> 0" and rest: "\<forall>m \<in> set ms. 0 < bigInt m"
    by auto
  show ?case
    using pos by (simp add: Let_def Cons.IH [OF rest])
qed

text \<open>
  Claim C6. If some member of the list has an integer form that is zero or negative,
  \<open>generatePartiesIDs\<close> returns an error (about such a member) and no party ids. If all
  members have a strictly positive integer form, it returns one party id per member, in
  order, with the member's bytes as id and its integer form as key.
\<close>

theorem C6_generatePartiesIDs:
  "((\<exists>m \<in> set memberIDs. bigInt m \<le> 0) \<longrightarrow>
      (\<exists>m \<in> set memberIDs. bigInt m \<le> 0 \<and>
         generatePartiesIDs bigInt thisID memberIDs =
           Inl (MemberIDNotGreaterThanZero (bigInt m))))
   \<and>
   ((\<forall>m \<in> set memberIDs. 0 < bigInt m) \<longrightarrow>
      (\<exists>thisPartyID ids.
         generatePartiesIDs bigInt thisID memberIDs = Inr (thisPartyID, ids) \<and>
         length ids = length memberIDs \<and>
         (\<forall>i < length memberIDs.
            Id (ids ! i) = memberIDs ! i \<and> Key (ids ! i) = bigInt (memberIDs ! i))))"
proof (intro conjI impI)
  assume "\<exists>m \<in> set memberIDs. bigInt m \<le> 0"
  from generatePartiesIDs_loop_error [OF this]
  show "\<exists>m \<in> set memberIDs. bigInt m \<le> 0 \<and>
         generatePartiesIDs bigInt thisID memberIDs =
           Inl (MemberIDNotGreaterThanZero (bigInt m))"
    by (simp add: generatePartiesIDs_def)
next
  assume "\<forall>m \<in> set memberIDs. 0 < bigInt m"
  from generatePartiesIDs_loop_ok [OF this]
  have "generatePartiesIDs bigInt thisID memberIDs =
          Inr (if thisID \<in> set memberIDs
               then Some (NewPartyID thisID [] (bigInt thisID)) else None,
               map (\<lambda>m. NewPartyID m [] (bigInt m)) memberIDs)"
    by (simp add: generatePartiesIDs_def)
  then show "\<exists>thisPartyID ids.
         generatePartiesIDs bigInt thisID memberIDs = Inr (thisPartyID, ids) \<and>
         length ids = length memberIDs \<and>
         (\<forall>i < length memberIDs.
            Id (ids ! i) = memberIDs ! i \<and> Key (ids ! i) = bigInt (memberIDs ! i))"
    by (simp add: NewPartyID_def)
qed

theorem C6_generatePartiesIDs_witness:
  "generatePartiesIDs SetBytes [2] [[1], [0], [3]] = Inl (MemberIDNotGreaterThanZero 0) \<and>
   generatePartiesIDs SetBytes [2] [[1], [2], [3]] =
     Inr (Some \<lparr> Id = [2], Moniker = [], Key = 2 \<rparr>,
          [\<lparr> Id = [1], Moniker = [], Key = 1 \<rparr>,
           \<lparr> Id = [2], Moniker = [], Key = 2 \<rparr>,
           \<lparr> Id = [3], Moniker = [], Key = 3 \<rparr>])"
proof -
  have bad: "\<exists>m \<in> set [[1], [0], [3 :: byte]]. SetBytes m \<le> 0"
    by (simp add: SetBytes_def)
  have good: "\<forall>m \<in> set [[1], [2], [3 :: byte]]. 0 < SetBytes m"
    by (simp add: SetBytes_def)
  have ev1: "generatePartiesIDs SetBytes [2] [[1], [0], [3]] = Inl (MemberIDNotGreaterThanZero 0)"
    by (simp add: generatePartiesIDs_def NewPartyID_def SetBytes_def Let_def)
  have ev2: "generatePartiesIDs SetBytes [2] [[1], [2], [3]] =
     Inr (Some \<lparr> Id = [2], Moniker = [], Key = 2 \<rparr>,
          [\<lparr> Id = [1], Moniker = [], Key = 1 \<rparr>,
           \<lparr> Id = [2], Moniker = [], Key = 2 \<rparr>,
           \<lparr> Id = [3], Moniker = [], Key = 3 \<rparr>])"
    by (simp add: generatePartiesIDs_def NewPartyID_def SetBytes_def Let_def)
  from C6_generatePartiesIDs [of "[[1], [0], [3]]" SetBytes "[2]", THEN conjunct1, THEN mp, OF bad]
    C6_generatePartiesIDs [of "[[1], [2], [3]]" SetBytes "[2]", THEN conjunct2, THEN mp, OF good]
    ev1 ev2
  show ?thesis
    by simp
qed

text \<open>
  The size check of \<open>InitializeKeyGeneration\<close>, whose threshold is an \<open>int\<close>: a group
  no larger than the threshold is rejected before any party id is generated, and for a
  larger group the call is decided by \<open>initializeKeyGenerationParty\<close>.
\<close>

lemma InitializeKeyGeneration_size_check:
  "(int (length memberIDs) \<le> sint t \<longrightarrow>
      InitializeKeyGeneration bigInt bridgeStart thisID memberIDs t pp =
        Inl (GroupSizeNotGreaterThanThreshold (int (length memberIDs)) (sint t)))
   \<and>
   (sint t < int (length memberIDs) \<longrightarrow>
      InitializeKeyGeneration bigInt bridgeStart thisID memberIDs t pp =
        (case initializeKeyGenerationParty bigInt bridgeStart thisID memberIDs t pp of
           Inl err \<Rightarrow> Inl (FailedToInitializeKeyGenerationMember err)
         | Inr member \<Rightarrow> Inr member))"
  by (simp add: InitializeKeyGeneration_def)

lemma sint_below_2_63:
  assumes "uint (t :: 64 word) < 2 ^ 63"
  shows "sint t = uint t"
proof -
  have "- (2 ^ 63) \<le> (0 :: int)" "0 \<le> uint t"
    by simp_all
  then have "- (2 ^ 63) \<le> uint t"
    by (rule order_trans)
  with assms have "signed_take_bit 63 (uint t) = uint t"
    by (simp only: signed_take_bit_int_eq_self_iff)
  then show ?thesis
    by (simp add: sint_uint)
qed

text \<open>
  The size check of \<open>GenerateThresholdSigner\<close> for a dishonest threshold below \<open>2 ^ 63\<close>,
  where \<open>int(dishonestThreshold)\<close> keeps the value.
\<close>

lemma GenerateThresholdSigner_init_size_check:
  assumes "uint dT < 2 ^ 63"
  shows "(int (length memberIDs) \<le> uint dT \<longrightarrow>
            GenerateThresholdSigner_init generated initKeyGen gid thisID memberIDs dT pp
              \<in> {Inl GroupWithoutMembers,
                  Inl (GroupSizeNotGreaterThanDishonestThreshold (int (length memberIDs)) (unat dT))})
         \<and>
         (uint dT < int (length memberIDs) \<longrightarrow>
            GenerateThresholdSigner_init generated initKeyGen gid thisID memberIDs dT pp =
              (case (case pp of None \<Rightarrow> GenerateTSSPreParams generated | Some p \<Rightarrow> Inr p) of
                 Inl err \<Rightarrow> Inl err
               | Inr p \<Rightarrow> initKeyGen \<lparr> groupID = gid, memberID = thisID, groupMemberIDs = memberIDs,
                                        dishonestThreshold = uint dT \<rparr> p))"
proof -
  have s: "sint dT = uint dT"
    using assms by (rule sint_below_2_63)
  have "0 \<le> uint dT"
    by simp
  then show ?thesis
    by (auto simp: GenerateThresholdSigner_init_def Let_def s)
qed

text \<open>
  Claim C3, at the input where the code departs from it. With one member and the
  dishonest threshold \<open>2 ^ 63\<close>, the member list is shorter than the threshold, yet
  \<open>int(dishonestThreshold)\<close> is \<open>- 2 ^ 63\<close>, neither size test fires, and
  \<open>GenerateThresholdSigner\<close> goes on to initialise key generation for a group whose
  recorded threshold is negative.
\<close>

theorem C3_dishonest_threshold_wraps:
  "int (length [m :: MemberID]) \<le> uint (2 ^ 63 :: 64 word) \<and>
   GenerateThresholdSigner_init generated initKeyGen gid m [m] (2 ^ 63) (Some pp) =
     initKeyGen \<lparr> groupID = gid, memberID = m, groupMemberIDs = [m],
                  dishonestThreshold = - (2 ^ 63) \<rparr> pp"
  by (simp add: GenerateThresholdSigner_init_def)

section \<open>Verification: signature submission on the contract\<close>

lemma recoveryID_below_4:
  "(rid :: byte) < 4 \<longleftrightarrow> rid \<in> {0, 1, 2, 3}"
proof
  assume "rid < 4"
  then have "unat rid < 4"
    by (simp add: word_less_nat_alt)
  then have "unat rid = 0 \<or> unat rid = 1 \<or> unat rid = 2 \<or> unat rid = 3"
    by arith
  moreover have "rid = of_nat (unat rid)"
    by simp
  ultimately have "rid = of_nat 0 \<or> rid = of_nat 1 \<or> rid = of_nat 2 \<or> rid = of_nat 3"
    by metis
  then show "rid \<in> {0, 1, 2, 3}"
    by auto
next
  assume "rid \<in> {0, 1, 2, 3}"
  then show "rid < 4"
    by auto
qed

lemma v_no_wrap:
  assumes "(rid :: byte) < 4"
  shows "uint (27 + rid) = uint rid + 27"
proof -
  from assms have "rid \<in> {0, 1, 2, 3}"
    by (simp only: recoveryID_below_4)
  then show ?thesis
    by auto
qed

text \<open>
  Claim C7. A submission that is accepted had a recovery id among 0, 1, 2, 3, the
  signature recovered with \<open>v = recoveryID + 27\<close> (no wrap-around) to the address derived
  from the stored public key, and it leaves the keep with no signing in progress; a
  recovery id of 4 or more is always rejected, and so is a signature that recovers to
  another address.
\<close>

theorem C7_submitSignature:
  "(submitSignature keccak256 ecrecover sender keep digest r s rid = Inr (keep', evs) \<longrightarrow>
      rid \<in> {0, 1, 2, 3} \<and>
      uint (27 + rid) = uint rid + 27 \<and>
      ecrecover digest (27 + rid) r s = publicKeyToAddress keccak256 (publicKey keep) \<and>
      \<not> isSigningInProgress keep' \<and>
      keep' = keep\<lparr>currentSigningStartBlock := 0\<rparr> \<and>
      evs = [SignatureSubmitted digest r s rid])
   \<and>
   (4 \<le> rid \<longrightarrow>
      (\<exists>msg. submitSignature keccak256 ecrecover sender keep digest r s rid = Inl msg))
   \<and>
   (ecrecover digest (27 + rid) r s \<noteq> publicKeyToAddress keccak256 (publicKey keep) \<longrightarrow>
      (\<exists>msg. submitSignature keccak256 ecrecover sender keep digest r s rid = Inl msg))"
proof (intro conjI impI)
  assume ok: "submitSignature keccak256 ecrecover sender keep digest r s rid = Inr (keep', evs)"
  then have lt: "rid < 4"
    by (auto simp: submitSignature_def Let_def split: if_splits)
  from lt show "rid \<in> {0, 1, 2, 3}"
    by (simp only: recoveryID_below_4)
  from lt show "uint (27 + rid) = uint rid + 27"
    by (rule v_no_wrap)
  from ok show "ecrecover digest (27 + rid) r s = publicKeyToAddress keccak256 (publicKey keep)"
    by (auto simp: submitSignature_def Let_def split: if_splits)
  from ok show k: "keep' = keep\<lparr>currentSigningStartBlock := 0\<rparr>"
    by (auto simp: submitSignature_def Let_def split: if_splits)
  then show "\<not> isSigningInProgress keep'"
    by (simp add: isSigningInProgress_def)
  from ok show "evs = [SignatureSubmitted digest r s rid]"
    by (auto simp: submitSignature_def Let_def split: if_splits)
next
  assume "4 \<le> rid"
  then have "\<not> rid < 4"
    by simp
  then show "\<exists>msg. submitSignature keccak256 ecrecover sender keep digest r s rid = Inl msg"
    by (simp add: submitSignature_def)
next
  assume "ecrecover digest (27 + rid) r s \<noteq> publicKeyToAddress keccak256 (publicKey keep)"
  then show "\<exists>msg. submitSignature keccak256 ecrecover sender keep digest r s rid = Inl msg"
    by (auto simp: submitSignature_def Let_def)
qed

theorem C7_submitSignature_witness:
  "submitSignature (\<lambda>_. 5) (\<lambda>_ _ _ _. 5) 1
     \<lparr> owner = 9, members = [1, 2], honestThreshold = 2, publicKey = [4, 2],
       currentSigningStartBlock = 100 \<rparr> 7 8 9 1
     = Inr (\<lparr> owner = 9, members = [1, 2], honestThreshold = 2, publicKey = [4, 2],
              currentSigningStartBlock = 0 \<rparr>, [SignatureSubmitted 7 8 9 1]) \<and>
   \<not> isSigningInProgress \<lparr> owner = 9, members = [1, 2], honestThreshold = 2, publicKey = [4, 2],
                            currentSigningStartBlock = 0 \<rparr> \<and>
   (\<exists>msg. submitSignature (\<lambda>_. 5) (\<lambda>_ _ _ _. 5) 1
     \<lparr> owner = 9, members = [1, 2], honestThreshold = 2, publicKey = [4, 2],
       currentSigningStartBlock = 100 \<rparr> 7 8 9 4 = Inl msg) \<and>
   (\<exists>msg. submitSignature (\<lambda>_. 5) (\<lambda>_ _ _ _. 6) 1
     \<lparr> owner = 9, members = [1, 2], honestThreshold = 2, publicKey = [4, 2],
       currentSigningStartBlock = 100 \<rparr> 7 8 9 1 = Inl msg)"
proof -
  let ?k = "\<lparr> owner = 9, members = [1, 2], honestThreshold = 2, publicKey = [4, 2],
              currentSigningStartBlock = 100 \<rparr>"
  let ?k' = "\<lparr> owner = 9, members = [1, 2], honestThreshold = 2, publicKey = [4, 2],
               currentSigningStartBlock = 0 \<rparr>"
  have ev: "submitSignature (\<lambda>_. 5) (\<lambda>_ _ _ _. 5) 1 ?k 7 8 9 1
              = Inr (?k', [SignatureSubmitted 7 8 9 1])"
    by (simp add: submitSignature_def isSigningInProgress_def publicKeyToAddress_def)
  have big: "(4 :: byte) \<le> 4"
    by simp
  have other: "(\<lambda>_ _ _ _. 6 :: address) (7 :: bytes32) (27 + 1 :: byte) (8 :: bytes32) (9 :: bytes32)
                 \<noteq> publicKeyToAddress (\<lambda>_. 5) (publicKey ?k)"
    by (simp add: publicKeyToAddress_def)
  from C7_submitSignature [of "\<lambda>_. 5" "\<lambda>_ _ _ _. 5" 1 ?k 7 8 9 1 ?k' "[SignatureSubmitted 7 8 9 1]",
      THEN conjunct1, THEN mp, OF ev]
    C7_submitSignature [of "\<lambda>_. 5" "\<lambda>_ _ _ _. 5" 1 ?k 7 8 9 4,
      THEN conjunct2, THEN conjunct1, THEN mp, OF big]
    C7_submitSignature [of "\<lambda>_. 5" "\<lambda>_ _ _ _. 6" 1 ?k 7 8 9 1,
      THEN conjunct2, THEN conjunct2, THEN mp, OF other]
    ev
  show ?thesis
    by simp
qed

section \<open>Verification: the in-memory chain\<close>

text \<open>
  Claim C10. \<open>CreateKeep\<close> on an address that is already in \<open>keeps\<close> returns an error
  that names the address, starts no handler and leaves the chain as it was. On a new
  address it returns no error, stores a keep whose public key is 64 zero bytes, leaves
  every other address as it was, and starts every registered keep-created handler on
  the event carrying the address and the given members.
\<close>

theorem C10_CreateKeep:
  "(keeps c a \<noteq> None \<longrightarrow>
      returned_error (CreateKeep addrString c a ms) =
        Some (''keep already exists for address ['' @ addrString a @ '']'') \<and>
      chain_after (CreateKeep addrString c a ms) = c \<and>
      spawned (CreateKeep addrString c a ms) = [])
   \<and>
   (keeps c a = None \<longrightarrow>
      returned_error (CreateKeep addrString c a ms) = None \<and>
      (\<exists>k. keeps (chain_after (CreateKeep addrString c a ms)) a = Some k \<and>
           keepPublicKey k = replicate 64 0 \<and> length (keepPublicKey k) = 64 \<and>
           signatureRequestedHandlers k = []) \<and>
      (\<forall>b. b \<noteq> a \<longrightarrow> keeps (chain_after (CreateKeep addrString c a ms)) b = keeps c b) \<and>
      keepCreatedHandlers (chain_after (CreateKeep addrString c a ms)) = keepCreatedHandlers c \<and>
      spawned (CreateKeep addrString c a ms) =
        map (\<lambda>h. (h, \<lparr> KeepAddress = a, Members = ms \<rparr>)) (keepCreatedHandlers c))"
  by (auto simp: CreateKeep_def Let_def)

theorem C10_CreateKeep_witness:
  "CreateKeep hexAddress \<lparr> keeps = Map.empty, keepCreatedHandlers = [3, 5] \<rparr> [0, 1] [[7], [8]] =
     \<lparr> returned_error = None,
       chain_after = \<lparr> keeps = [[0, 1] \<mapsto> \<lparr> signatureRequestedHandlers = [],
                                             keepPublicKey = replicate 64 0 \<rparr>],
                       keepCreatedHandlers = [3, 5] \<rparr>,
       spawned = [(3, \<lparr> KeepAddress = [0, 1], Members = [[7], [8]] \<rparr>),
                  (5, \<lparr> KeepAddress = [0, 1], Members = [[7], [8]] \<rparr>)] \<rparr> \<and>
   CreateKeep hexAddress
     \<lparr> keeps = [[0, 1] \<mapsto> \<lparr> signatureRequestedHandlers = [], keepPublicKey = replicate 64 0 \<rparr>],
       keepCreatedHandlers = [3, 5] \<rparr> [0, 1] [[9]] =
     \<lparr> returned_error = Some ''keep already exists for address [0x0001]'',
       chain_after =
         \<lparr> keeps = [[0, 1] \<mapsto> \<lparr> signatureRequestedHandlers = [], keepPublicKey = replicate 64 0 \<rparr>],
           keepCreatedHandlers = [3, 5] \<rparr>,
       spawned = [] \<rparr>"
proof -
  let ?c0 = "\<lparr> keeps = Map.empty, keepCreatedHandlers = [3, 5] \<rparr>"
  let ?c1 = "\<lparr> keeps = [[0, 1 :: byte] \<mapsto> \<lparr> signatureRequestedHandlers = [],
                                                keepPublicKey = replicate 64 0 \<rparr>],
               keepCreatedHandlers = [3, 5] \<rparr>"
  have fresh: "keeps ?c0 [0, 1] = None"
    by simp
  have known: "keeps ?c1 [0, 1] \<noteq> None"
    by simp
  have hex: "hexAddress [0, 1] = ''0x0001''"
    by (simp add: hexAddress_def hexByte_def hexDigit_def)
  have ev: "CreateKeep hexAddress ?c0 [0, 1] [[7], [8]] =
     \<lparr> returned_error = None, chain_after = ?c1,
       spawned = [(3, \<lparr> KeepAddress = [0, 1], Members = [[7], [8]] \<rparr>),
                  (5, \<lparr> KeepAddress = [0, 1], Members = [[7], [8]] \<rparr>)] \<rparr>"
    by (simp add: CreateKeep_def Let_def)
  from C10_CreateKeep [of ?c0 "[0, 1]" hexAddress "[[7], [8]]", THEN conjunct2, THEN mp, OF fresh]
    C10_CreateKeep [of ?c1 "[0, 1]" hexAddress "[[9]]", THEN conjunct1, THEN mp, OF known]
    ev hex
  show ?thesis
    by (simp add: CreateKeep_def)
qed

text \<open>
  Claim C8. A signature request for an address that is not in \<open>keeps\<close> returns exactly
  the error \<open>failed to find keep with address: [\<dots>]\<close> with the address rendered
  inside the brackets, leaves the chain unchanged and hands no event to any handler.
\<close>

theorem C8_requestSignature_nonexistent:
  "keeps c a = None \<longrightarrow>
     requestSignature addrString c a digest =
       \<lparr> returned_error = Some (''failed to find keep with address: ['' @ addrString a @ '']''),
         chain_after = c, spawned = [] \<rparr>"
  by (simp add: requestSignature_def)

theorem C8_requestSignature_nonexistent_witness:
  "requestSignature hexAddress initializeLocalChain
      [0, 0, 0, 0, 0, 0, 0, 0, 0, 0, 0, 0, 0, 0, 0, 0, 0, 0, 0, 1]
      (1 # replicate 31 0) =
     \<lparr> returned_error =
         Some ''failed to find keep with address: [0x0000000000000000000000000000000000000001]'',
       chain_after = initializeLocalChain, spawned = [] \<rparr>"
proof -
  have none: "keeps initializeLocalChain
                [0, 0, 0, 0, 0, 0, 0, 0, 0, 0, 0, 0, 0, 0, 0, 0, 0, 0, 0, 1] = None"
    by (simp add: initializeLocalChain_def)
  have hex: "hexAddress [0, 0, 0, 0, 0, 0, 0, 0, 0, 0, 0, 0, 0, 0, 0, 0, 0, 0, 0, 1]
               = ''0x0000000000000000000000000000000000000001''"
    by (simp add: hexAddress_def hexByte_def hexDigit_def)
  from C8_requestSignature_nonexistent [of initializeLocalChain _ hexAddress "1 # replicate 31 0",
      THEN mp, OF none] hex
  show ?thesis
    by simp
qed

section \<open>Verification: the block counter\<close>

subsection \<open>Arithmetic on heights, watchers, and the frame of a notification pass\<close>

lemma lt_max_less_succ: "x < maxUint64 \<Longrightarrow> x < x + 1"
  unfolding maxUint64_def
  using interval_class.inc_less_eq_imp_less by blast

lemma lt_le_succ: "(x::uint64) < y \<Longrightarrow> x + 1 \<le> y"
  by (simp add: inc_le)

lemma succ_le_lt: "(x::uint64) < maxUint64 \<Longrightarrow> x + 1 \<le> y \<Longrightarrow> x < y"
  unfolding maxUint64_def
  by (metis interval_class.inc_less_eq_imp_less)

lemma notifyWatchers_frame:
  "latestBlockHeight (notifyWatchers env h ws s) = latestBlockHeight s \<and>
   waiters (notifyWatchers env h ws s) = waiters s \<and>
   watchers (notifyWatchers env h ws s) = watchers s \<and>
   pc (notifyWatchers env h ws s) = pc s \<and>
   nextWatcher (notifyWatchers env h ws s) = nextWatcher s \<and>
   woken (notifyWatchers env h ws s) = woken s"
  by (induction ws arbitrary: s) auto

lemma notifyWatchers_delivered:
  "delivered (notifyWatchers env h ws s) =
     delivered s @ map (\<lambda>w. (w, h)) (acceptedBy env ws (closedChannels s))"
  by (induction ws arbitrary: s) auto

lemma acceptedBy_ready:
  "w \<in> set (acceptedBy env ws cl) \<Longrightarrow> receiving env w \<and> \<not> ctxErr env w \<and> w \<in> set ws"
  by (induction ws arbitrary: cl) (auto split: if_splits)

lemma acceptedBy_distinct: "distinct ws \<Longrightarrow> distinct (acceptedBy env ws cl)"
  by (induction ws arbitrary: cl) (auto dest: acceptedBy_ready)

lemma removeWatcher_from_set: "set (removeWatcher_from i w ws) \<subseteq> set ws"
proof (induction i w ws rule: removeWatcher_from.induct)
  case (1 i w ws)
  show ?case
  proof (cases "i < length ws")
    case False
    then show ?thesis
      by (subst removeWatcher_from.simps) simp
  next
    case True
    show ?thesis
    proof (cases "ws ! i = w")
      case False
      with True 1 show ?thesis
        by (subst removeWatcher_from.simps) simp
    next
      case hit: True
      have "set (butlast (ws[i := last ws])) \<subseteq> set (ws[i := last ws])"
        by (auto dest: in_set_butlastD)
      also have "\<dots> \<subseteq> insert (last ws) (set ws)"
        by (rule set_update_subset_insert)
      also have "\<dots> = set ws"
        using True by (auto intro: last_in_set)
      finally show ?thesis
        using True hit by (subst removeWatcher_from.simps) simp
    qed
  qed
qed

lemma swap_remove_distinct:
  assumes "distinct ws" "i < length ws"
  shows "distinct (butlast (ws[i := last ws]))"
proof -
  from assms have ne: "ws \<noteq> []"
    by auto
  then have split: "ws = butlast ws @ [last ws]"
    by simp
  have db: "distinct (butlast ws)"
    using assms(1) by (rule distinct_butlast)
  have notin: "last ws \<notin> set (butlast ws)"
    using assms(1) split by (metis distinct_append disjoint_iff list.set_intros(1) distinct.simps(2) not_distinct_conv_prefix)
  show ?thesis
  proof (cases "i = length ws - 1")
    case True
    then have "ws ! i = last ws"
      using ne by (simp add: last_conv_nth)
    then have "ws[i := last ws] = ws"
      by (metis list_update_id)
    with db show ?thesis
      by simp
  next
    case False
    then have "butlast (ws[i := last ws]) = (butlast ws)[i := last ws]"
      by (simp add: butlast_list_update)
    moreover have "distinct ((butlast ws)[i := last ws])"
      using db notin by (simp add: distinct_list_update)
    ultimately show ?thesis
      by simp
  qed
qed

lemma removeWatcher_from_distinct: "distinct ws \<Longrightarrow> distinct (removeWatcher_from i w ws)"
proof (induction i w ws rule: removeWatcher_from.induct)
  case (1 i w ws)
  show ?case
  proof (cases "i < length ws")
    case False
    with 1 show ?thesis
      by (subst removeWatcher_from.simps) simp
  next
    case True
    show ?thesis
    proof (cases "ws ! i = w")
      case False
      with True 1 show ?thesis
        by (subst removeWatcher_from.simps) simp
    next
      case hit: True
      have "distinct (butlast (ws[i := last ws]))"
        using "1.prems" True by (rule swap_remove_distinct)
      then show ?thesis
        using True hit by (subst removeWatcher_from.simps) simp
    qed
  qed
qed

lemma removeWatcher_distinct: "distinct ws \<Longrightarrow> distinct (removeWatcher w ws)"
  by (simp add: removeWatcher_def removeWatcher_from_distinct)

lemma removeWatcher_set: "set (removeWatcher w ws) \<subseteq> set ws"
  by (simp add: removeWatcher_def removeWatcher_from_set)

lemma takeWaiters_latest: "latestBlockHeight (takeWaiters h s) = latestBlockHeight s + 1"
  by (simp add: takeWaiters_def)

lemma step_noWrap:
  assumes "noWrap s" "belowMax e"
  shows "noWrap (step e s) \<and> latestBlockHeight s \<le> latestBlockHeight (step e s)"
proof (cases "panic s \<noteq> None")
  case True
  with assms show ?thesis by (simp add: step_def)
next
  case False
  then have np: "panic s = None" by simp
  show ?thesis
  proof (cases e)
    case (NewBlock r)
    with assms have r: "r < maxUint64"
      by simp
    show ?thesis
    proof (cases "pc s")
      case Idle
      with assms np NewBlock r show ?thesis
        by (simp add: step_def receive_block_def noWrap_def)
    next
      case (LoopHead u r')
      with assms np NewBlock show ?thesis
        by (simp add: step_def receive_block_def)
    next
      case (Dispatch h r')
      with assms np NewBlock show ?thesis
        by (simp add: step_def receive_block_def)
    qed
  next
    case (Step env)
    show ?thesis
    proof (cases "pc s")
      case Idle
      with assms np Step show ?thesis
        by (simp add: step_def receiveBlocks_step_def)
    next
      case (LoopHead u r)
      with assms have u: "u = latestBlockHeight s + 1" and r: "r < maxUint64"
          and l: "latestBlockHeight s < maxUint64"
        by (simp_all add: noWrap_def)
      show ?thesis
      proof (cases "u \<le> r")
        case True
        have "latestBlockHeight s < latestBlockHeight s + 1"
          using l by (rule lt_max_less_succ)
        moreover have "latestBlockHeight s + 1 < maxUint64"
          using True u r by simp
        ultimately show ?thesis
          using np Step LoopHead True u r
          by (simp add: step_def receiveBlocks_step_def noWrap_def takeWaiters_def)
      next
        case False
        with np Step LoopHead l show ?thesis
          by (simp add: step_def receiveBlocks_step_def noWrap_def)
      qed
    next
      case (Dispatch h r)
      with assms np Step show ?thesis
        by (simp add: step_def receiveBlocks_step_def noWrap_def notifyWatchers_frame)
    qed
  next
    case Watch
    with assms np show ?thesis
      by (simp add: step_def WatchBlocks_def noWrap_def Let_def split: receive_pc.splits)
  next
    case (ContextDone w)
    with assms np show ?thesis
      by (simp add: step_def noWrap_def split: receive_pc.splits)
  qed
qed

lemma run_append: "run (es1 @ es2) s = run es2 (run es1 s)"
  by (induction es1 arbitrary: s) auto

lemma run_noWrap:
  "noWrap s \<Longrightarrow> list_all belowMax es \<Longrightarrow>
     noWrap (run es s) \<and> latestBlockHeight s \<le> latestBlockHeight (run es s)"
proof (induction es arbitrary: s)
  case Nil
  then show ?case by simp
next
  case (Cons e es)
  from Cons.prems have a: "noWrap (step e s)" and b: "latestBlockHeight s \<le> latestBlockHeight (step e s)"
    using step_noWrap [of s e] by simp_all
  from Cons.IH [OF a] Cons.prems b show ?case
    by auto
qed


lemma waitersAt_takeWaiters:
  "waitersAt (takeWaiters u s) h = (if h = u then [] else waitersAt s h)"
  by (simp add: waitersAt_def takeWaiters_def)

lemma woken_takeWaiters:
  "woken (takeWaiters u s) = woken s @ map (\<lambda>c. (c, u)) (waitersAt s u)"
  by (simp add: takeWaiters_def waitersAt_def)

lemma registeredOnce_takeWaiters:
  assumes "registeredOnce s"
  shows "registeredOnce (takeWaiters u s)"
proof -
  from assms have d: "\<And>h. distinct (waitersAt s h)"
    and x: "\<And>h h'. h \<noteq> h' \<Longrightarrow> set (waitersAt s h) \<inter> set (waitersAt s h') = {}"
    and n: "\<And>h. set (waitersAt s h) \<inter> fst ` set (woken s) = {}"
    and w: "distinct (map fst (woken s))"
    by (auto simp: registeredOnce_def)
  have m: "map fst (woken (takeWaiters u s)) = map fst (woken s) @ waitersAt s u"
    by (simp add: woken_takeWaiters comp_def)
  have "distinct (map fst (woken (takeWaiters u s)))"
    using w d [of u] n [of u] unfolding m by auto
  moreover have "\<And>h. set (waitersAt (takeWaiters u s) h) \<inter> fst ` set (woken (takeWaiters u s)) = {}"
  proof -
    fix h
    show "set (waitersAt (takeWaiters u s) h) \<inter> fst ` set (woken (takeWaiters u s)) = {}"
    proof (cases "h = u")
      case True
      then show ?thesis by (simp add: waitersAt_takeWaiters)
    next
      case False
      have "fst ` set (woken (takeWaiters u s)) = fst ` set (woken s) \<union> set (waitersAt s u)"
        by (auto simp: woken_takeWaiters image_Un image_comp comp_def)
      with False n [of h] x [of h u] show ?thesis
        by (auto simp: waitersAt_takeWaiters)
    qed
  qed
  moreover have "\<And>h. distinct (waitersAt (takeWaiters u s) h)"
    using d by (simp add: waitersAt_takeWaiters)
  moreover have "\<And>h h'. h \<noteq> h' \<Longrightarrow>
      set (waitersAt (takeWaiters u s) h) \<inter> set (waitersAt (takeWaiters u s) h') = {}"
    using x by (simp add: waitersAt_takeWaiters)
  ultimately show ?thesis
    unfolding registeredOnce_def by blast
qed

lemma registeredOnce_cong:
  "waiters s' = waiters s \<Longrightarrow> woken s' = woken s \<Longrightarrow> registeredOnce s' = registeredOnce s"
  by (simp add: registeredOnce_def waitersAt_def)

lemma step_waiters_woken:
  "(waiters (step e s) = waiters s \<and> woken (step e s) = woken s) \<or>
   (\<exists>u r. pc s = LoopHead u r \<and> u \<le> r \<and>
      waiters (step e s) = waiters (takeWaiters u s) \<and> woken (step e s) = woken (takeWaiters u s))"
proof (cases "panic s \<noteq> None")
  case True
  then show ?thesis by (simp add: step_def)
next
  case False
  then have np: "panic s = None" by simp
  show ?thesis
  proof (cases e)
    case (NewBlock r)
    with np show ?thesis
      by (cases "pc s") (simp_all add: step_def receive_block_def)
  next
    case (Step env)
    with np show ?thesis
      by (cases "pc s") (simp_all add: step_def receiveBlocks_step_def notifyWatchers_frame)
  next
    case Watch
    with np show ?thesis
      by (simp add: step_def WatchBlocks_def Let_def)
  next
    case (ContextDone w)
    with np show ?thesis
      by (simp add: step_def)
  qed
qed

lemma step_registeredOnce:
  assumes "registeredOnce s"
  shows "registeredOnce (step e s)"
  using step_waiters_woken [of e s] assms registeredOnce_takeWaiters [OF assms]
  by (metis registeredOnce_cong)

lemma run_registeredOnce: "registeredOnce s \<Longrightarrow> registeredOnce (run es s)"
  by (induction es arbitrary: s) (simp_all add: step_registeredOnce)


lemma stale_not_entered:
  assumes "latestBlockHeight s < maxUint64" "r \<le> latestBlockHeight s"
  shows "\<not> latestBlockHeight s + 1 \<le> r"
proof
  assume "latestBlockHeight s + 1 \<le> r"
  with assms(1) have "latestBlockHeight s < r"
    by (rule succ_le_lt)
  with assms(2) show False
    by simp
qed

lemma quietSince_step:
  assumes "quietSince s t" "\<not> isNewBlock e"
  shows "quietSince s (step e t)"
proof (cases "panic t \<noteq> None")
  case True
  with assms show ?thesis by (simp add: step_def)
next
  case False
  then have np: "panic t = None" by simp
  show ?thesis
  proof (cases e)
    case (NewBlock r)
    with assms show ?thesis by simp
  next
    case (Step env)
    with np assms(1) show ?thesis
      by (cases "pc t") (simp_all add: step_def receiveBlocks_step_def quietSince_def)
  next
    case Watch
    with np assms(1) show ?thesis
      by (cases "pc t") (simp_all add: step_def WatchBlocks_def Let_def quietSince_def)
  next
    case (ContextDone w)
    with np assms(1) show ?thesis
      by (cases "pc t") (simp_all add: step_def quietSince_def)
  qed
qed

lemma quietSince_run:
  "quietSince s t \<Longrightarrow> list_all (\<lambda>e. \<not> isNewBlock e) es \<Longrightarrow> quietSince s (run es t)"
  by (induction es arbitrary: t) (simp_all add: quietSince_step)

lemma stale_notification_quiet:
  assumes "latestBlockHeight s < maxUint64" "pc s = Idle" "r \<le> latestBlockHeight s"
    "list_all (\<lambda>e. \<not> isNewBlock e) es"
  shows "woken (run (NewBlock r # es) s) = woken s \<and>
         waiters (run (NewBlock r # es) s) = waiters s \<and>
         latestBlockHeight (run (NewBlock r # es) s) = latestBlockHeight s"
proof -
  have "quietSince s (step (NewBlock r) s)"
    using assms(2) stale_not_entered [OF assms(1) assms(3)]
    by (simp add: step_def receive_block_def quietSince_def)
  from quietSince_run [OF this assms(4)] show ?thesis
    by (simp add: quietSince_def)
qed

lemma heightsOf_append: "heightsOf w (xs @ ys) = heightsOf w xs @ heightsOf w ys"
  by (simp add: heightsOf_def)

lemma heightsOf_accepted:
  "distinct acc \<Longrightarrow>
     heightsOf w (map (\<lambda>x. (x, h)) acc) = (if w \<in> set acc then [h] else [])"
proof (induction acc)
  case Nil
  then show ?case by (simp add: heightsOf_def)
next
  case (Cons a acc)
  then show ?case
    by (auto simp: heightsOf_def filter_empty_conv)
qed

lemma heightsOf_set: "x \<in> set (heightsOf w log) \<Longrightarrow> (w, x) \<in> set log"
  by (auto simp: heightsOf_def)

lemma deliveredInOrderI:
  assumes "distinct (watchers s)"
    and "\<And>w. w \<in> set (watchers s) \<Longrightarrow> w < nextWatcher s"
    and "\<And>d. d \<in> set (delivered s) \<Longrightarrow> snd d \<le> latestBlockHeight s"
    and "\<And>d h r. d \<in> set (delivered s) \<Longrightarrow> pc s = Dispatch h r \<Longrightarrow> snd d < h"
    and "\<And>w. sorted_wrt (<) (heightsOf w (delivered s))"
  shows "deliveredInOrder s"
  unfolding deliveredInOrder_def
proof (intro conjI ballI allI)
  fix d
  assume d: "d \<in> set (delivered s)"
  show "case pc s of Dispatch height received \<Rightarrow> snd d < height | _ \<Rightarrow> True"
    using assms(4) [OF d] by (cases "pc s") simp_all
qed (use assms in blast)+

lemma deliveredInOrder_watchers:
  "deliveredInOrder s \<Longrightarrow> distinct (watchers s)"
  "deliveredInOrder s \<Longrightarrow> w \<in> set (watchers s) \<Longrightarrow> w < nextWatcher s"
  by (simp_all add: deliveredInOrder_def)

lemma deliveredInOrder_le:
  "deliveredInOrder s \<Longrightarrow> d \<in> set (delivered s) \<Longrightarrow> snd d \<le> latestBlockHeight s"
  by (simp add: deliveredInOrder_def)

lemma deliveredInOrder_less:
  "deliveredInOrder s \<Longrightarrow> d \<in> set (delivered s) \<Longrightarrow> pc s = Dispatch h r \<Longrightarrow> snd d < h"
  unfolding deliveredInOrder_def by fastforce

lemma deliveredInOrder_sorted:
  "deliveredInOrder s \<Longrightarrow> sorted_wrt (<) (heightsOf w (delivered s))"
  by (simp add: deliveredInOrder_def)

lemma deliveredInOrder_dispatch:
  assumes inv: "deliveredInOrder s" and p: "pc s = Dispatch h r" and l: "h = latestBlockHeight s"
  shows "deliveredInOrder ((notifyWatchers env h (watchers s) s)\<lparr>pc := LoopHead (h + 1) r\<rparr>)"
proof -
  let ?acc = "acceptedBy env (watchers s) (closedChannels s)"
  let ?s' = "(notifyWatchers env h (watchers s) s)\<lparr>pc := LoopHead (h + 1) r\<rparr>"
  have below: "\<And>d. d \<in> set (delivered s) \<Longrightarrow> snd d < h"
    using inv p by (blast intro: deliveredInOrder_less)
  have da: "distinct ?acc"
    using deliveredInOrder_watchers(1) [OF inv] by (rule acceptedBy_distinct)
  have f: "watchers ?s' = watchers s" "nextWatcher ?s' = nextWatcher s"
    "latestBlockHeight ?s' = latestBlockHeight s" "pc ?s' = LoopHead (h + 1) r"
    by (simp_all add: notifyWatchers_frame)
  have del: "delivered ?s' = delivered s @ map (\<lambda>w. (w, h)) ?acc"
    by (simp add: notifyWatchers_delivered)
  show ?thesis
  proof (rule deliveredInOrderI)
    show "distinct (watchers ?s')"
      unfolding f using inv by (rule deliveredInOrder_watchers)
  next
    fix w
    assume "w \<in> set (watchers ?s')"
    then show "w < nextWatcher ?s'"
      unfolding f using inv by (blast intro: deliveredInOrder_watchers)
  next
    fix d
    assume "d \<in> set (delivered ?s')"
    then have "d \<in> set (delivered s) \<or> snd d = h"
      unfolding del by auto
    then have "snd d \<le> h"
      using below [of d] by auto
    then show "snd d \<le> latestBlockHeight ?s'"
      unfolding f using l by simp
  next
    fix d h' r'
    assume "pc ?s' = Dispatch h' r'"
    then show "snd d < h'"
      unfolding f by simp
  next
    fix w
    have "\<forall>x \<in> set (heightsOf w (delivered s)). x < h"
      using below by (auto dest: heightsOf_set)
    then show "sorted_wrt (<) (heightsOf w (delivered ?s'))"
      unfolding del using deliveredInOrder_sorted [OF inv, of w]
      by (simp add: heightsOf_append heightsOf_accepted [OF da] sorted_wrt_append)
  qed
qed

lemma deliveredInOrder_takeWaiters:
  assumes inv: "deliveredInOrder s" and nw: "noWrap s" and p: "pc s = LoopHead u r"
  shows "deliveredInOrder ((takeWaiters u s)\<lparr>pc := Dispatch u r\<rparr>)"
proof -
  from nw p have u: "u = latestBlockHeight s + 1" and l: "latestBlockHeight s < maxUint64"
    by (simp_all add: noWrap_def)
  have lt: "latestBlockHeight s < latestBlockHeight s + 1"
    using l by (rule lt_max_less_succ)
  have sl: "snd d < latestBlockHeight s + 1" if "d \<in> set (delivered s)" for d
    using deliveredInOrder_le [OF inv that] lt by (rule order_le_less_trans)
  let ?s' = "(takeWaiters u s)\<lparr>pc := Dispatch u r\<rparr>"
  have f: "watchers ?s' = watchers s" "nextWatcher ?s' = nextWatcher s"
    "delivered ?s' = delivered s" "latestBlockHeight ?s' = latestBlockHeight s + 1"
    "pc ?s' = Dispatch u r"
    by (simp_all add: takeWaiters_def)
  show ?thesis
  proof (rule deliveredInOrderI)
    show "distinct (watchers ?s')"
      unfolding f using inv by (rule deliveredInOrder_watchers)
  next
    fix w
    assume "w \<in> set (watchers ?s')"
    then show "w < nextWatcher ?s'"
      unfolding f using inv by (blast intro: deliveredInOrder_watchers)
  next
    fix d
    assume "d \<in> set (delivered ?s')"
    then show "snd d \<le> latestBlockHeight ?s'"
      unfolding f by (blast intro: less_imp_le sl)
  next
    fix d h' r'
    assume "d \<in> set (delivered ?s')" "pc ?s' = Dispatch h' r'"
    then show "snd d < h'"
      unfolding f using u by (auto intro: sl)
  next
    fix w
    show "sorted_wrt (<) (heightsOf w (delivered ?s'))"
      unfolding f using inv by (rule deliveredInOrder_sorted)
  qed
qed

lemma step_deliveredInOrder:
  assumes inv: "deliveredInOrder s" and nw: "noWrap s"
  shows "deliveredInOrder (step e s)"
proof (cases "panic s \<noteq> None")
  case True
  with inv show ?thesis by (simp add: step_def)
next
  case False
  then have np: "panic s = None" by simp
  show ?thesis
  proof (cases e)
    case (NewBlock r)
    show ?thesis
    proof (cases "pc s")
      case Idle
      with inv np NewBlock show ?thesis
        by (simp add: step_def receive_block_def deliveredInOrder_def)
    next
      case (LoopHead u r')
      with inv np NewBlock show ?thesis
        by (simp add: step_def receive_block_def)
    next
      case (Dispatch h r')
      with inv np NewBlock show ?thesis
        by (simp add: step_def receive_block_def)
    qed
  next
    case (Step env)
    show ?thesis
    proof (cases "pc s")
      case Idle
      with inv np Step show ?thesis
        by (simp add: step_def receiveBlocks_step_def)
    next
      case (LoopHead u r)
      show ?thesis
      proof (cases "u \<le> r")
        case True
        with deliveredInOrder_takeWaiters [OF inv nw LoopHead] np Step LoopHead show ?thesis
          by (simp add: step_def receiveBlocks_step_def)
      next
        case False
        with inv np Step LoopHead show ?thesis
          by (simp add: step_def receiveBlocks_step_def deliveredInOrder_def)
      qed
    next
      case (Dispatch h r)
      with nw have "h = latestBlockHeight s"
        by (simp add: noWrap_def)
      from deliveredInOrder_dispatch [OF inv Dispatch this] np Step Dispatch show ?thesis
        by (simp add: step_def receiveBlocks_step_def)
    qed
  next
    case Watch
    from inv have "distinct (watchers s @ [nextWatcher s])"
      by (auto simp: deliveredInOrder_def)
    moreover from inv have "\<forall>w \<in> set (watchers s @ [nextWatcher s]). w < Suc (nextWatcher s)"
      by (auto simp: deliveredInOrder_def less_Suc_eq)
    ultimately show ?thesis
      using inv np Watch
      by (simp add: step_def WatchBlocks_def Let_def deliveredInOrder_def)
  next
    case (ContextDone w)
    from inv have "distinct (removeWatcher w (watchers s))"
      by (simp add: deliveredInOrder_def removeWatcher_distinct)
    moreover from inv have "\<forall>x \<in> set (removeWatcher w (watchers s)). x < nextWatcher s"
      using removeWatcher_set [of w "watchers s"] by (auto simp: deliveredInOrder_def)
    ultimately show ?thesis
      using inv np ContextDone
      by (simp add: step_def deliveredInOrder_def)
  qed
qed

lemma run_deliveredInOrder:
  "deliveredInOrder s \<Longrightarrow> noWrap s \<Longrightarrow> list_all belowMax es \<Longrightarrow>
     deliveredInOrder (run es s)"
proof (induction es arbitrary: s)
  case Nil
  then show ?case by simp
next
  case (Cons e es)
  from Cons.prems have "deliveredInOrder (step e s)" "noWrap (step e s)"
    using step_deliveredInOrder [of s e] step_noWrap [of s e] by simp_all
  with Cons.IH Cons.prems show ?case
    by simp
qed

lemma step_delivered:
  "\<exists>new. delivered (step e s) = delivered s @ new \<and>
         (new \<noteq> [] \<longrightarrow> (\<exists>h r. pc s = Dispatch h r \<and> (\<forall>d \<in> set new. snd d = h)))"
proof (cases "panic s \<noteq> None")
  case True
  then show ?thesis by (simp add: step_def)
next
  case False
  then have np: "panic s = None" by simp
  show ?thesis
  proof (cases e)
    case (NewBlock r)
    with np show ?thesis
      by (cases "pc s") (simp_all add: step_def receive_block_def)
  next
    case (Step env)
    with np show ?thesis
      by (cases "pc s")
        (auto simp: step_def receiveBlocks_step_def takeWaiters_def notifyWatchers_delivered)
  next
    case Watch
    with np show ?thesis
      by (simp add: step_def WatchBlocks_def Let_def)
  next
    case (ContextDone w)
    with np show ?thesis
      by (simp add: step_def)
  qed
qed

lemma step_enters_dispatch:
  assumes "noWrap s" "\<not> inDispatch s" "inDispatch (step e s)"
  shows "latestBlockHeight s < latestBlockHeight (step e s)"
proof (cases "panic s \<noteq> None")
  case True
  with assms show ?thesis by (simp add: step_def)
next
  case False
  then have np: "panic s = None" by simp
  show ?thesis
  proof (cases e)
    case (NewBlock r)
    with np assms show ?thesis
      by (cases "pc s") (simp_all add: step_def receive_block_def inDispatch_def split: if_splits)
  next
    case (Step env)
    show ?thesis
    proof (cases "pc s")
      case Idle
      with np assms Step show ?thesis
        by (simp add: step_def receiveBlocks_step_def inDispatch_def)
    next
      case (LoopHead u r)
      with assms(1) have "latestBlockHeight s < latestBlockHeight s + 1"
        by (simp add: noWrap_def lt_max_less_succ)
      with np assms Step LoopHead show ?thesis
        by (simp add: step_def receiveBlocks_step_def inDispatch_def takeWaiters_def split: if_splits)
    next
      case (Dispatch h r)
      with assms show ?thesis
        by (simp add: inDispatch_def)
    qed
  next
    case Watch
    with np assms show ?thesis
      by (simp add: step_def WatchBlocks_def Let_def inDispatch_def)
  next
    case (ContextDone w)
    with np assms show ?thesis
      by (simp add: step_def inDispatch_def)
  qed
qed

lemma later_deliveries:
  "noWrap s \<Longrightarrow> list_all belowMax es \<Longrightarrow>
     \<exists>new. delivered (run es s) = delivered s @ new \<and>
       (\<forall>d \<in> set new. latestBlockHeight s \<le> snd d \<and>
          (\<not> inDispatch s \<longrightarrow> latestBlockHeight s < snd d))"
proof (induction es arbitrary: s)
  case Nil
  then show ?case by simp
next
  case (Cons e es)
  from Cons.prems have nw': "noWrap (step e s)" and mono: "latestBlockHeight s \<le> latestBlockHeight (step e s)"
    using step_noWrap [of s e] by simp_all
  from Cons.prems have bm: "list_all belowMax es"
    by simp
  from Cons.IH [OF nw' bm] obtain new2 where
    n2: "delivered (run es (step e s)) = delivered (step e s) @ new2"
    and b2: "\<And>d. d \<in> set new2 \<Longrightarrow> latestBlockHeight (step e s) \<le> snd d"
    and s2: "\<And>d. d \<in> set new2 \<Longrightarrow> \<not> inDispatch (step e s) \<Longrightarrow> latestBlockHeight (step e s) < snd d"
    by blast
  from step_delivered [of e s] obtain new1 where
    n1: "delivered (step e s) = delivered s @ new1"
    and d1: "new1 \<noteq> [] \<Longrightarrow> \<exists>h r. pc s = Dispatch h r \<and> (\<forall>d \<in> set new1. snd d = h)"
    by blast
  have "delivered (run (e # es) s) = delivered s @ (new1 @ new2)"
    by (simp add: n1 n2)
  moreover have "\<forall>d \<in> set (new1 @ new2). latestBlockHeight s \<le> snd d \<and>
          (\<not> inDispatch s \<longrightarrow> latestBlockHeight s < snd d)"
  proof
    fix d
    assume "d \<in> set (new1 @ new2)"
    then consider (a) "d \<in> set new1" | (b) "d \<in> set new2"
      by auto
    then show "latestBlockHeight s \<le> snd d \<and> (\<not> inDispatch s \<longrightarrow> latestBlockHeight s < snd d)"
    proof cases
      case a
      then have "new1 \<noteq> []" by auto
      from d1 [OF this] a obtain h r where "pc s = Dispatch h r" "snd d = h"
        by blast
      with Cons.prems(1) show ?thesis
        by (simp add: noWrap_def inDispatch_def)
    next
      case b
      show ?thesis
      proof (intro conjI impI)
        from mono b2 [OF b] show "latestBlockHeight s \<le> snd d"
          by simp
      next
        assume nd: "\<not> inDispatch s"
        show "latestBlockHeight s < snd d"
        proof (cases "inDispatch (step e s)")
          case True
          from step_enters_dispatch [OF Cons.prems(1) nd True] b2 [OF b] show ?thesis
            by simp
        next
          case False
          from s2 [OF b False] mono show ?thesis
            by simp
        qed
      qed
    qed
  qed
  ultimately show ?case
    by blast
qed


lemma acceptedBy_independent:
  assumes "ctxErr env' = ctxErr env" "\<forall>x. x \<noteq> w \<longrightarrow> receiving env' x = receiving env x"
  shows "filter (\<lambda>x. x \<noteq> w) (acceptedBy env' ws cl) = filter (\<lambda>x. x \<noteq> w) (acceptedBy env ws cl)"
  using assms by (induction ws arbitrary: cl) auto

lemma heightsOf_map_filter:
  "w' \<noteq> w \<Longrightarrow>
     heightsOf w' (map (\<lambda>x. (x, h)) acc) = heightsOf w' (map (\<lambda>x. (x, h)) (filter (\<lambda>x. x \<noteq> w) acc))"
  by (induction acc) (auto simp: heightsOf_def)

lemma notifyWatchers_others_unaffected:
  assumes "ctxErr env' = ctxErr env" "\<forall>x. x \<noteq> w \<longrightarrow> receiving env' x = receiving env x"
    "w' \<noteq> w"
  shows "heightsOf w' (delivered (notifyWatchers env' h ws s)) =
         heightsOf w' (delivered (notifyWatchers env h ws s))"
proof -
  let ?a' = "acceptedBy env' ws (closedChannels s)"
  let ?a = "acceptedBy env ws (closedChannels s)"
  have "heightsOf w' (map (\<lambda>x. (x, h)) ?a') =
        heightsOf w' (map (\<lambda>x. (x, h)) (filter (\<lambda>x. x \<noteq> w) ?a'))"
    using assms(3) by (rule heightsOf_map_filter)
  also have "\<dots> = heightsOf w' (map (\<lambda>x. (x, h)) (filter (\<lambda>x. x \<noteq> w) ?a))"
    by (simp only: acceptedBy_independent [OF assms(1,2)])
  also have "\<dots> = heightsOf w' (map (\<lambda>x. (x, h)) ?a)"
    using assms(3) by (rule heightsOf_map_filter [symmetric])
  finally show ?thesis
    by (simp add: notifyWatchers_delivered heightsOf_append)
qed

lemma notifyWatchers_dropped:
  assumes "\<not> receiving env w"
  shows "heightsOf w (delivered (notifyWatchers env h ws s)) = heightsOf w (delivered s)"
proof -
  have "w \<notin> set (acceptedBy env ws (closedChannels s))"
    using assms acceptedBy_ready by blast
  then have "heightsOf w (map (\<lambda>x. (x, h)) (acceptedBy env ws (closedChannels s))) = []"
    by (auto simp: heightsOf_def filter_empty_conv)
  then show ?thesis
    by (simp add: notifyWatchers_delivered heightsOf_append)
qed

lemma notifyWatchers_panic_kept:
  "panic s \<noteq> None \<Longrightarrow> panic (notifyWatchers env h ws s) \<noteq> None"
  by (induction ws arbitrary: s) auto

lemma notifyWatchers_ready_gets:
  "panic (notifyWatchers env h ws s) = None \<Longrightarrow> w \<in> set ws \<Longrightarrow> receiving env w \<Longrightarrow>
     \<not> ctxErr env w \<Longrightarrow> w \<in> set (acceptedBy env ws (closedChannels s))"
proof (induction ws arbitrary: s)
  case Nil
  then show ?case by simp
next
  case (Cons x ws)
  show ?case
  proof (cases "ctxErr env x")
    case True
    with Cons.prems have xw: "x \<noteq> w" by auto
    from True Cons.prems(1) have nc: "x \<notin> set (closedChannels s)"
      by (auto split: if_splits)
    with True Cons.prems xw
    have "w \<in> set (acceptedBy env ws (closedChannels (s\<lparr>closedChannels := x # closedChannels s\<rparr>)))"
      by (intro Cons.IH) auto
    with True nc show ?thesis by simp
  next
    case False
    from False Cons.prems(1) have nc: "x \<notin> set (closedChannels s)"
      by (auto split: if_splits)
    show ?thesis
    proof (cases "receiving env x")
      case True
      show ?thesis
      proof (cases "x = w")
        case True
        with False nc \<open>receiving env x\<close> show ?thesis by simp
      next
        case xw: False
        with False nc True Cons.prems
        have "w \<in> set (acceptedBy env ws (closedChannels (s\<lparr>delivered := delivered s @ [(x, h)]\<rparr>)))"
          by (intro Cons.IH) auto
        with False nc True show ?thesis by simp
      qed
    next
      case nr: False
      with Cons.prems have xw: "x \<noteq> w" by auto
      with False nc nr Cons.prems have "w \<in> set (acceptedBy env ws (closedChannels s))"
        by (intro Cons.IH) auto
      with False nc nr show ?thesis by simp
    qed
  qed
qed

lemma notifyWatchers_ready_delivered:
  assumes "panic (notifyWatchers env h ws s) = None" "w \<in> set ws" "receiving env w" "\<not> ctxErr env w"
  shows "(w, h) \<in> set (delivered (notifyWatchers env h ws s))"
  using notifyWatchers_ready_gets [OF assms] by (simp add: notifyWatchers_delivered)

subsection \<open>The counter as created, and the largest height\<close>

lemma createBlockCounter_noWrap:
  "startup < maxUint64 \<Longrightarrow> noWrap (createBlockCounter startup)"
  by (simp add: noWrap_def createBlockCounter_def)

lemma createBlockCounter_deliveredInOrder: "deliveredInOrder (createBlockCounter startup)"
  by (simp add: deliveredInOrder_def createBlockCounter_def heightsOf_def)

lemma createBlockCounter_registeredOnce: "registeredOnce (createBlockCounter startup)"
  by (simp add: registeredOnce_def createBlockCounter_def waitersAt_def)

lemma maxUint64_value: "uint maxUint64 = 18446744073709551615"
  by (simp add: maxUint64_def unsigned_minus_1_eq_mask mask_eq_exp_minus_1)


subsection \<open>The notification loop\<close>

text \<open>
  Claim C9, for executions that stay clear of \<open>uint64\<close> wrap-around (the latest height
  and every height taken from the subscription channel are below \<open>2 ^ 64 - 1\<close>).
  Along such an execution \<open>latestBlockHeight\<close> never decreases. A notification whose
  height is not above the latest height wakes no waiter and takes none from the map,
  whatever happens until the next notification. When the loop reaches a height, the
  waiters of that height are deleted from the map in the same critical section that reads
  them and are the ones woken; so, if every channel is registered once, no channel is
  ever woken twice.
\<close>

theorem C9_notification_loop:
  assumes "noWrap s" and "list_all belowMax es"
  shows "(\<forall>es1 es2. es = es1 @ es2 \<longrightarrow>
            latestBlockHeight (run es1 s) \<le> latestBlockHeight (run es s))
       \<and> (\<forall>r quiet. pc s = Idle \<and> r \<le> latestBlockHeight s \<and>
              list_all (\<lambda>e. \<not> isNewBlock e) quiet \<longrightarrow>
            woken (run (NewBlock r # quiet) s) = woken s \<and>
            waiters (run (NewBlock r # quiet) s) = waiters s \<and>
            latestBlockHeight (run (NewBlock r # quiet) s) = latestBlockHeight s)
       \<and> (\<forall>h. waiters (takeWaiters h s) h = None \<and>
              woken (takeWaiters h s) = woken s @ map (\<lambda>c. (c, h)) (waitersAt s h))
       \<and> (registeredOnce s \<longrightarrow>
            registeredOnce (run es s) \<and> distinct (map fst (woken (run es s))))"
proof (intro conjI allI impI)
  fix es1 es2
  assume split: "es = es1 @ es2"
  with assms(2) have b1: "list_all belowMax es1" and b2: "list_all belowMax es2"
    by simp_all
  from run_noWrap [OF assms(1) b1] have "noWrap (run es1 s)"
    by simp
  from run_noWrap [OF this b2]
  show "latestBlockHeight (run es1 s) \<le> latestBlockHeight (run es s)"
    by (simp add: split run_append)
next
  fix r quiet
  assume a: "pc s = Idle \<and> r \<le> latestBlockHeight s \<and> list_all (\<lambda>e. \<not> isNewBlock e) quiet"
  from assms(1) have l: "latestBlockHeight s < maxUint64"
    by (simp add: noWrap_def)
  from a have i: "pc s = Idle" and le: "r \<le> latestBlockHeight s"
      and q: "list_all (\<lambda>e. \<not> isNewBlock e) quiet"
    by simp_all
  from stale_notification_quiet [OF l i le q]
  show "woken (run (NewBlock r # quiet) s) = woken s"
    "waiters (run (NewBlock r # quiet) s) = waiters s"
    "latestBlockHeight (run (NewBlock r # quiet) s) = latestBlockHeight s"
    by simp_all
next
  fix h
  show "waiters (takeWaiters h s) h = None"
    by (simp add: takeWaiters_def)
  show "woken (takeWaiters h s) = woken s @ map (\<lambda>c. (c, h)) (waitersAt s h)"
    by (rule woken_takeWaiters)
next
  assume "registeredOnce s"
  then show ro: "registeredOnce (run es s)"
    by (rule run_registeredOnce)
  then show "distinct (map fst (woken (run es s)))"
    by (simp add: registeredOnce_def)
qed

theorem C9_notification_loop_witness:
  "noWrap counterWithWaiters \<and> registeredOnce counterWithWaiters \<and>
   list_all belowMax
     [NewBlock 105, Step allReceiving, Step allReceiving, Step allReceiving, Step allReceiving,
      Step allReceiving, Step allReceiving, Step allReceiving, Step allReceiving,
      Step allReceiving, Step allReceiving, Step allReceiving] \<and>
   run [NewBlock 105, Step allReceiving, Step allReceiving, Step allReceiving, Step allReceiving,
        Step allReceiving, Step allReceiving, Step allReceiving, Step allReceiving,
        Step allReceiving, Step allReceiving, Step allReceiving] counterWithWaiters
     = (createBlockCounter 105)\<lparr>woken := [(1, 103), (2, 103), (3, 105)]\<rparr> \<and>
   latestBlockHeight (run [NewBlock 105, Step allReceiving] counterWithWaiters)
     \<le> latestBlockHeight
         (run [NewBlock 105, Step allReceiving, Step allReceiving, Step allReceiving,
               Step allReceiving, Step allReceiving, Step allReceiving, Step allReceiving,
               Step allReceiving, Step allReceiving, Step allReceiving, Step allReceiving]
            counterWithWaiters) \<and>
   woken (run [NewBlock 99, Step allReceiving, Step allReceiving] counterWithWaiters) = [] \<and>
   distinct (map fst (woken
     (run [NewBlock 105, Step allReceiving, Step allReceiving, Step allReceiving, Step allReceiving,
           Step allReceiving, Step allReceiving, Step allReceiving, Step allReceiving,
           Step allReceiving, Step allReceiving, Step allReceiving] counterWithWaiters)))"
proof -
  let ?es = "[NewBlock 105, Step allReceiving, Step allReceiving, Step allReceiving,
              Step allReceiving, Step allReceiving, Step allReceiving, Step allReceiving,
              Step allReceiving, Step allReceiving, Step allReceiving, Step allReceiving]"
  have nw: "noWrap counterWithWaiters"
    by (simp add: counterWithWaiters_def createBlockCounter_def noWrap_def maxUint64_def)
  have ro: "registeredOnce counterWithWaiters"
    by (auto simp: counterWithWaiters_def createBlockCounter_def registeredOnce_def waitersAt_def)
  have bm: "list_all belowMax ?es"
    by (simp add: maxUint64_def)
  have ev: "run ?es counterWithWaiters
              = (createBlockCounter 105)\<lparr>woken := [(1, 103), (2, 103), (3, 105)]\<rparr>"
    by (simp add: counterWithWaiters_def createBlockCounter_def step_def receive_block_def
        receiveBlocks_step_def takeWaiters_def waitersAt_def)
  note c = C9_notification_loop [OF nw bm]
  have idle: "pc counterWithWaiters = Idle \<and> 99 \<le> latestBlockHeight counterWithWaiters \<and>
      list_all (\<lambda>e. \<not> isNewBlock e) [Step allReceiving, Step allReceiving]"
    by (simp add: counterWithWaiters_def createBlockCounter_def)
  have w0: "woken counterWithWaiters = []"
    by (simp add: counterWithWaiters_def createBlockCounter_def)
  from c [THEN conjunct1, rule_format, of "[NewBlock 105, Step allReceiving]"
      "[Step allReceiving, Step allReceiving, Step allReceiving,
        Step allReceiving, Step allReceiving, Step allReceiving, Step allReceiving,
        Step allReceiving, Step allReceiving, Step allReceiving]"]
  have mono: "latestBlockHeight (run [NewBlock 105, Step allReceiving] counterWithWaiters)
     \<le> latestBlockHeight (run ?es counterWithWaiters)"
    by simp
  from c [THEN conjunct2, THEN conjunct1, rule_format, OF idle] w0
  have quiet: "woken (run [NewBlock 99, Step allReceiving, Step allReceiving] counterWithWaiters) = []"
    by simp
  from c [THEN conjunct2, THEN conjunct2, THEN conjunct2, THEN mp, OF ro]
  have once: "distinct (map fst (woken (run ?es counterWithWaiters)))"
    by simp
  from nw ro bm ev mono quiet once show ?thesis
    by (intro conjI)
qed

text \<open>
  Without the bound the claim fails: a counter whose latest height is \<open>2 ^ 64 - 1\<close>
  and that is notified of height 0 enters its loop at \<open>latestBlockHeight + 1 = 0\<close>,
  wakes the waiter registered at height 0 and ends with latest height 0.
\<close>

theorem C9_counterexample:
  "latestBlockHeight (run [NewBlock 0, Step allReceiving, Step allReceiving, Step allReceiving]
      ((createBlockCounter maxUint64)\<lparr>waiters := [0 \<mapsto> [7]]\<rparr>))
     < latestBlockHeight ((createBlockCounter maxUint64)\<lparr>waiters := [0 \<mapsto> [7]]\<rparr>) \<and>
   0 \<le> latestBlockHeight ((createBlockCounter maxUint64)\<lparr>waiters := [0 \<mapsto> [7]]\<rparr>) \<and>
   woken (run [NewBlock 0, Step allReceiving, Step allReceiving, Step allReceiving]
      ((createBlockCounter maxUint64)\<lparr>waiters := [0 \<mapsto> [7]]\<rparr>)) = [(7, 0)]"
  by (simp add: createBlockCounter_def step_def receive_block_def
      receiveBlocks_step_def takeWaiters_def waitersAt_def maxUint64_def word_gt_0)

subsection \<open>Watchers\<close>

text \<open>
  Claim C4, for executions that stay clear of \<open>uint64\<close> wrap-around. Every watcher
  receives its heights in strictly increasing order. In one pass over the watchers, a
  watcher with no receiver waiting gets nothing, what the other watchers get does not
  depend on whether it was receiving, and unless the pass panics every listed watcher
  that is receiving and not cancelled gets the height. Whatever is delivered after a
  moment at which no dispatch is under way is above the latest height of that moment,
  so a height that was dropped for a watcher is not delivered to it later.
\<close>

theorem C4_watchBlocks_delivery:
  assumes "noWrap s" and "deliveredInOrder s" and "list_all belowMax es"
  shows "(\<forall>w. sorted_wrt (<) (heightsOf w (delivered (run es s))))
       \<and> (\<forall>(env :: dispatch_env) h ws t w. \<not> receiving env w \<longrightarrow>
            heightsOf w (delivered (notifyWatchers env h ws t)) = heightsOf w (delivered t) \<and>
            (\<forall>(env' :: dispatch_env) w'. ctxErr env' = ctxErr env \<and>
                 (\<forall>x. x \<noteq> w \<longrightarrow> receiving env' x = receiving env x) \<and> w' \<noteq> w \<longrightarrow>
               heightsOf w' (delivered (notifyWatchers env' h ws t)) =
               heightsOf w' (delivered (notifyWatchers env h ws t))) \<and>
            (\<forall>w'. panic (notifyWatchers env h ws t) = None \<and> w' \<in> set ws \<and>
                 receiving env w' \<and> \<not> ctxErr env w' \<longrightarrow>
               (w', h) \<in> set (delivered (notifyWatchers env h ws t))))
       \<and> (\<forall>es1 es2. es = es1 @ es2 \<longrightarrow>
            (\<exists>new. delivered (run es s) = delivered (run es1 s) @ new \<and>
               (\<forall>d \<in> set new.
                  latestBlockHeight (run es1 s) \<le> snd d \<and>
                  (\<not> inDispatch (run es1 s) \<longrightarrow> latestBlockHeight (run es1 s) < snd d))))"
proof (intro conjI allI impI)
  fix w
  from run_deliveredInOrder [OF assms(2) assms(1) assms(3)]
  show "sorted_wrt (<) (heightsOf w (delivered (run es s)))"
    by (rule deliveredInOrder_sorted)
next
  fix env :: dispatch_env and h ws t w
  assume "\<not> receiving env w"
  then show "heightsOf w (delivered (notifyWatchers env h ws t)) = heightsOf w (delivered t)"
    by (rule notifyWatchers_dropped)
next
  fix env env' :: dispatch_env and h ws t w w'
  assume "ctxErr env' = ctxErr env \<and>
          (\<forall>x. x \<noteq> w \<longrightarrow> receiving env' x = receiving env x) \<and> w' \<noteq> w"
  then have "ctxErr env' = ctxErr env"
    "\<forall>x. x \<noteq> w \<longrightarrow> receiving env' x = receiving env x" "w' \<noteq> w"
    by simp_all
  then show "heightsOf w' (delivered (notifyWatchers env' h ws t)) =
             heightsOf w' (delivered (notifyWatchers env h ws t))"
    by (rule notifyWatchers_others_unaffected)
next
  fix env :: dispatch_env and h ws t w w'
  assume "panic (notifyWatchers env h ws t) = None \<and> w' \<in> set ws \<and>
          receiving env w' \<and> \<not> ctxErr env w'"
  then have "panic (notifyWatchers env h ws t) = None" "w' \<in> set ws"
    "receiving env w'" "\<not> ctxErr env w'"
    by simp_all
  then show "(w', h) \<in> set (delivered (notifyWatchers env h ws t))"
    by (rule notifyWatchers_ready_delivered)
next
  fix es1 es2
  assume split: "es = es1 @ es2"
  with assms(3) have b1: "list_all belowMax es1" and b2: "list_all belowMax es2"
    by simp_all
  from run_noWrap [OF assms(1) b1] have "noWrap (run es1 s)"
    by simp
  from later_deliveries [OF this b2]
  show "\<exists>new. delivered (run es s) = delivered (run es1 s) @ new \<and>
               (\<forall>d \<in> set new.
                  latestBlockHeight (run es1 s) \<le> snd d \<and>
                  (\<not> inDispatch (run es1 s) \<longrightarrow> latestBlockHeight (run es1 s) < snd d))"
    by (simp add: split run_append)
qed

theorem C4_watchBlocks_delivery_witness:
  "noWrap (createBlockCounter 100) \<and> deliveredInOrder (createBlockCounter 100) \<and>
   list_all belowMax
     [Watch, Watch, NewBlock 102, Step onlyFirstReceiving, Step onlyFirstReceiving,
      Step allReceiving, Step allReceiving, Step allReceiving] \<and>
   delivered (run [Watch, Watch, NewBlock 102, Step onlyFirstReceiving, Step onlyFirstReceiving,
                   Step allReceiving, Step allReceiving, Step allReceiving]
                (createBlockCounter 100))
     = [(0, 101), (0, 102), (1, 102)] \<and>
   sorted_wrt (<) (heightsOf 0 (delivered
     (run [Watch, Watch, NewBlock 102, Step onlyFirstReceiving, Step onlyFirstReceiving,
           Step allReceiving, Step allReceiving, Step allReceiving] (createBlockCounter 100)))) \<and>
   sorted_wrt (<) (heightsOf 1 (delivered
     (run [Watch, Watch, NewBlock 102, Step onlyFirstReceiving, Step onlyFirstReceiving,
           Step allReceiving, Step allReceiving, Step allReceiving] (createBlockCounter 100)))) \<and>
   heightsOf 1 (delivered
     (run [Watch, Watch, NewBlock 102, Step onlyFirstReceiving, Step onlyFirstReceiving,
           Step allReceiving, Step allReceiving, Step allReceiving] (createBlockCounter 100)))
     = [102] \<and>
   (\<exists>new. delivered
       (run [Watch, Watch, NewBlock 102, Step onlyFirstReceiving, Step onlyFirstReceiving,
             Step allReceiving, Step allReceiving, Step allReceiving] (createBlockCounter 100))
     = delivered
         (run [Watch, Watch, NewBlock 102, Step onlyFirstReceiving, Step onlyFirstReceiving]
            (createBlockCounter 100)) @ new \<and>
     (\<forall>d \<in> set new. 101 < snd d))"
proof -
  let ?es1 = "[Watch, Watch, NewBlock 102, Step onlyFirstReceiving, Step onlyFirstReceiving]"
  let ?es2 = "[Step allReceiving, Step allReceiving, Step allReceiving]"
  let ?es = "[Watch, Watch, NewBlock 102, Step onlyFirstReceiving, Step onlyFirstReceiving,
              Step allReceiving, Step allReceiving, Step allReceiving]"
  have nw: "noWrap (createBlockCounter 100)"
    by (simp add: createBlockCounter_def noWrap_def maxUint64_def)
  have dio: "deliveredInOrder (createBlockCounter 100)"
    by (simp add: deliveredInOrder_def createBlockCounter_def heightsOf_def)
  have bm: "list_all belowMax ?es"
    by (simp add: maxUint64_def)
  have ev: "run ?es (createBlockCounter 100)
     = (createBlockCounter 102)\<lparr>watchers := [0, 1], nextWatcher := 2,
          delivered := [(0, 101), (0, 102), (1, 102)]\<rparr>"
    by (simp add: createBlockCounter_def step_def receive_block_def WatchBlocks_def Let_def
        receiveBlocks_step_def takeWaiters_def waitersAt_def allReceiving_def onlyFirstReceiving_def)
  have ev1: "run ?es1 (createBlockCounter 100)
     = (createBlockCounter 101)\<lparr>watchers := [0, 1], nextWatcher := 2,
          pc := LoopHead 102 102, delivered := [(0, 101)]\<rparr>"
    by (simp add: createBlockCounter_def step_def receive_block_def WatchBlocks_def Let_def
        receiveBlocks_step_def takeWaiters_def waitersAt_def allReceiving_def onlyFirstReceiving_def)
  note c = C4_watchBlocks_delivery [OF nw dio bm]
  have split: "?es = ?es1 @ ?es2"
    by simp
  from c [THEN conjunct1, rule_format, of 0]
  have s0: "sorted_wrt (<) (heightsOf 0 (delivered (run ?es (createBlockCounter 100))))" .
  from c [THEN conjunct1, rule_format, of 1]
  have s1: "sorted_wrt (<) (heightsOf 1 (delivered (run ?es (createBlockCounter 100))))" .
  from c [THEN conjunct2, THEN conjunct2, rule_format, OF split]
  obtain new where n: "delivered (run ?es (createBlockCounter 100))
        = delivered (run ?es1 (createBlockCounter 100)) @ new"
      and a: "\<forall>d \<in> set new. latestBlockHeight (run ?es1 (createBlockCounter 100)) \<le> snd d \<and>
                  (\<not> inDispatch (run ?es1 (createBlockCounter 100)) \<longrightarrow>
                    latestBlockHeight (run ?es1 (createBlockCounter 100)) < snd d)"
    by blast
  have "\<not> inDispatch (run ?es1 (createBlockCounter 100))"
    "latestBlockHeight (run ?es1 (createBlockCounter 100)) = 101"
    unfolding ev1 by (simp_all add: inDispatch_def createBlockCounter_def)
  with a have "\<forall>d \<in> set new. 101 < snd d"
    by simp
  with n have later: "\<exists>new. delivered (run ?es (createBlockCounter 100))
        = delivered (run ?es1 (createBlockCounter 100)) @ new \<and> (\<forall>d \<in> set new. 101 < snd d)"
    by blast
  have d: "delivered (run ?es (createBlockCounter 100)) = [(0, 101), (0, 102), (1, 102)]"
    unfolding ev by simp
  have h1: "heightsOf 1 (delivered (run ?es (createBlockCounter 100))) = [102]"
    unfolding d by (simp add: heightsOf_def)
  from nw dio bm d s0 s1 h1 later show ?thesis
    by (intro conjI)
qed

text \<open>
  Without the bound the claim fails: a counter started at \<open>2 ^ 64 - 2\<close> and notified
  of height \<open>2 ^ 64 - 1\<close> never leaves its inner loop (every \<open>uint64\<close> is at most the
  received height), and its watcher receives \<open>2 ^ 64 - 1\<close> and then \<open>0\<close>.
\<close>

theorem C4_counterexample:
  "heightsOf 0 (delivered
     (run [Watch, NewBlock maxUint64, Step allReceiving, Step allReceiving, Step allReceiving,
           Step allReceiving] (createBlockCounter (maxUint64 - 1))))
     = [maxUint64, 0] \<and>
   \<not> sorted_wrt (<) [maxUint64, 0]"
  by (simp add: createBlockCounter_def step_def receive_block_def WatchBlocks_def Let_def
      receiveBlocks_step_def takeWaiters_def waitersAt_def allReceiving_def maxUint64_def
      heightsOf_def)

section \<open>Verification: resubscription\<close>

lemma delays_append: "delays (xs @ ys) = delays xs @ delays ys"
  by (simp add: delays_def)

lemma forwarded_append: "forwarded (xs @ ys) = forwarded xs @ forwarded ys"
  by (simp add: forwarded_def)

lemma warnings_append: "warnings (xs @ ys) = warnings xs @ warnings ys"
  by (simp add: warnings_def)

lemma started_append:
  "subscriptionsStarted (xs @ ys) = subscriptionsStarted xs + subscriptionsStarted ys"
  by (simp add: subscriptionsStarted_def)

lemma forwarded_map_Forward: "forwarded (map Forward ns) = ns"
  by (induction ns) (simp_all add: forwarded_def)

lemma delays_map_Forward: "delays (map Forward ns) = []"
  by (induction ns) (simp_all add: delays_def)

lemma warnings_map_Forward: "warnings (map Forward ns) = []"
  by (induction ns) (simp_all add: warnings_def)

lemma started_map_Forward: "subscriptionsStarted (map Forward ns) = 0"
  by (induction ns) (simp_all add: subscriptionsStarted_def)

lemma subscribe_readings:
  "delays (subscribe sub) = []"
  "forwarded (subscribe sub) = numbersOf sub"
  "subscriptionsStarted (subscribe sub) = 0"
  "length (warnings (subscribe sub)) = (if failed sub then 1 else 0)"
proof -
  have c: "\<And>x xs. delays (x # xs) = sleepOf x @ delays xs"
    "\<And>x xs. forwarded (x # xs) = forwardOf x @ forwarded xs"
    "\<And>x xs. warnings (x # xs) = warningOf x @ warnings xs"
    "\<And>x xs. subscriptionsStarted (x # xs) = (if x = GoSubscribe then 1 else 0) + subscriptionsStarted xs"
    "delays [] = []" "forwarded [] = []" "warnings [] = []" "subscriptionsStarted [] = 0"
    by (simp_all add: delays_def forwarded_def warnings_def subscriptionsStarted_def)
  show "delays (subscribe sub) = []"
    by (cases sub) (simp_all add: c delays_append delays_map_Forward)
  show "forwarded (subscribe sub) = numbersOf sub"
    by (cases sub) (simp_all add: c forwarded_append forwarded_map_Forward)
  show "subscriptionsStarted (subscribe sub) = 0"
    by (cases sub) (simp_all add: c started_append started_map_Forward)
  show "length (warnings (subscribe sub)) = (if failed sub then 1 else 0)"
    by (cases sub) (simp_all add: c warnings_append warnings_map_Forward)
qed

lemma resubscribeLoop_failed:
  assumes "list_all failed subs"
  shows "delays (resubscribeLoop subs) = replicate (length subs) 5 \<and>
         subscriptionsStarted (resubscribeLoop subs) = length subs \<and>
         length (warnings (resubscribeLoop subs)) = length subs \<and>
         forwarded (resubscribeLoop subs) = concat (map numbersOf subs) \<and>
         (\<forall>more. resubscribeLoop (subs @ more) = resubscribeLoop subs @ resubscribeLoop more)"
  using assms
proof (induction subs)
  case Nil
  show ?case
    by (simp add: delays_def subscriptionsStarted_def warnings_def forwarded_def)
next
  case (Cons sub subs)
  then have f: "failed sub" and r: "list_all failed subs"
    by simp_all
  note ih = Cons.IH [OF r]
  have unfold: "resubscribeLoop (sub # subs) = [GoSubscribe] @ subscribe sub @ [Sleep 5] @ resubscribeLoop subs"
    using f by simp
  have "delays (resubscribeLoop (sub # subs)) = replicate (length (sub # subs)) 5"
    unfolding unfold delays_append using ih by (simp add: subscribe_readings) (simp add: delays_def)
  moreover have "subscriptionsStarted (resubscribeLoop (sub # subs)) = length (sub # subs)"
    unfolding unfold started_append using ih
    by (simp add: subscribe_readings) (simp add: subscriptionsStarted_def)
  moreover have "length (warnings (resubscribeLoop (sub # subs))) = length (sub # subs)"
    unfolding unfold warnings_append using ih f
    by (simp add: subscribe_readings) (simp add: warnings_def)
  moreover have "forwarded (resubscribeLoop (sub # subs)) = concat (map numbersOf (sub # subs))"
    unfolding unfold forwarded_append using ih
    by (simp add: subscribe_readings) (simp add: forwarded_def)
  moreover have "\<forall>more. resubscribeLoop ((sub # subs) @ more)
                   = resubscribeLoop (sub # subs) @ resubscribeLoop more"
    using ih f by simp
  ultimately show ?case
    by blast
qed

lemma no_notification_no_wake:
  assumes "pc s = Idle" "list_all (\<lambda>e. \<not> isNewBlock e) es"
  shows "woken (run es s) = woken s \<and> waiters (run es s) = waiters s"
proof -
  have "quietSince s s"
    using assms(1) by (simp add: quietSince_def)
  from quietSince_run [OF this assms(2)] show ?thesis
    by (simp add: quietSince_def)
qed

text \<open>
  Claim C5, as the code has it. After any number of failed subscriptions the goroutine
  has slept 5 seconds after each of them (the delay is constant; it does not grow), has
  logged one warning per failure, and starts the next subscription: there is no limit on
  the number of retries. What reaches the subscription channel is exactly the block
  numbers of the headers received, nothing for a failure; and while no height is taken
  from the subscription channel, no waiter is woken or removed, whatever else happens.
\<close>

theorem C5_resubscribe:
  assumes "list_all failed subs"
  shows "delays (resubscribeLoop subs) = replicate (length subs) 5
       \<and> length (warnings (resubscribeLoop subs)) = length subs
       \<and> subscriptionsStarted (resubscribeLoop subs) = length subs
       \<and> (\<forall>nxt more. resubscribeLoop (subs @ nxt # more) =
              resubscribeLoop subs @ GoSubscribe # subscribe nxt @
              (if failed nxt then Sleep 5 # resubscribeLoop more else []))
       \<and> forwarded (resubscribeLoop subs) = concat (map numbersOf subs)
       \<and> (\<forall>s es. pc s = Idle \<and> list_all (\<lambda>e. \<not> isNewBlock e) es \<longrightarrow>
              woken (run es s) = woken s \<and> waiters (run es s) = waiters s)"
proof (intro conjI allI impI)
  note r = resubscribeLoop_failed [OF assms]
  from r show "delays (resubscribeLoop subs) = replicate (length subs) 5"
    by simp
  from r show "length (warnings (resubscribeLoop subs)) = length subs"
    by simp
  from r show "subscriptionsStarted (resubscribeLoop subs) = length subs"
    by simp
  from r show "forwarded (resubscribeLoop subs) = concat (map numbersOf subs)"
    by simp
  fix nxt more
  from r show "resubscribeLoop (subs @ nxt # more) =
              resubscribeLoop subs @ GoSubscribe # subscribe nxt @
              (if failed nxt then Sleep 5 # resubscribeLoop more else [])"
    by simp
next
  fix s :: blockCounter and es
  assume a: "pc s = Idle \<and> list_all (\<lambda>e. \<not> isNewBlock e) es"
  then have "pc s = Idle" "list_all (\<lambda>e. \<not> isNewBlock e) es"
    by simp_all
  from no_notification_no_wake [OF this]
  show "woken (run es s) = woken s" "waiters (run es s) = waiters s"
    by simp_all
qed

theorem C5_resubscribe_witness:
  "list_all failed [CouldNotSubscribe ''EOF'', Interrupted [101, 102] ''reset'',
                    CouldNotSubscribe ''EOF''] \<and>
   delays (resubscribeLoop [CouldNotSubscribe ''EOF'', Interrupted [101, 102] ''reset'',
                            CouldNotSubscribe ''EOF'']) = [5, 5, 5] \<and>
   length (warnings (resubscribeLoop [CouldNotSubscribe ''EOF'', Interrupted [101, 102] ''reset'',
                            CouldNotSubscribe ''EOF''])) = 3 \<and>
   forwarded (resubscribeLoop [CouldNotSubscribe ''EOF'', Interrupted [101, 102] ''reset'',
                            CouldNotSubscribe ''EOF'']) = [101, 102] \<and>
   resubscribeLoop ([CouldNotSubscribe ''EOF'', Interrupted [101, 102] ''reset'',
                     CouldNotSubscribe ''EOF''] @ [Running [103]]) =
     resubscribeLoop [CouldNotSubscribe ''EOF'', Interrupted [101, 102] ''reset'',
                      CouldNotSubscribe ''EOF''] @
     [GoSubscribe, LogDebug ''subscribing to new blocks'', Forward 103] \<and>
   woken (run [Step allReceiving, Watch, Step allReceiving] counterWithWaiters) = []"
proof -
  let ?subs = "[CouldNotSubscribe ''EOF'', Interrupted [101, 102] ''reset'',
                CouldNotSubscribe ''EOF'']"
  have f: "list_all failed ?subs"
    by simp
  note c = C5_resubscribe [OF f]
  have idle: "pc counterWithWaiters = Idle \<and>
      list_all (\<lambda>e. \<not> isNewBlock e) [Step allReceiving, Watch, Step allReceiving]"
    by (simp add: counterWithWaiters_def createBlockCounter_def)
  have w0: "woken counterWithWaiters = []"
    by (simp add: counterWithWaiters_def createBlockCounter_def)
  from c have "delays (resubscribeLoop ?subs) = [5, 5, 5]"
    by (simp add: numeral_3_eq_3)
  moreover from c have "length (warnings (resubscribeLoop ?subs)) = 3"
    by simp
  moreover from c have "forwarded (resubscribeLoop ?subs) = [101, 102]"
    by simp
  moreover from c [THEN conjunct2, THEN conjunct2, THEN conjunct2, THEN conjunct1, rule_format,
      of "Running [103]" "[]"]
  have "resubscribeLoop (?subs @ [Running [103]]) =
     resubscribeLoop ?subs @ [GoSubscribe, LogDebug ''subscribing to new blocks'', Forward 103]"
    by simp
  moreover from c [THEN conjunct2, THEN conjunct2, THEN conjunct2, THEN conjunct2, THEN conjunct2,
      rule_format, OF idle] w0
  have "woken (run [Step allReceiving, Watch, Step allReceiving] counterWithWaiters) = []"
    by simp
  ultimately show ?thesis
    using f by (intro conjI)
qed

text \<open>
  The claim as stated fails: three failures in a row are each followed by a sleep of
  5 seconds, which is no exponential backoff from 5 seconds with a growth factor of
  2 or more and a bound above the first delay.
\<close>

theorem C5_counterexample:
  "delays (resubscribeLoop [CouldNotSubscribe ''EOF'', CouldNotSubscribe ''EOF'',
                            CouldNotSubscribe ''EOF'']) = [5, 5, 5] \<and>
   \<not> (\<exists>factor bound. 2 \<le> factor \<and> 5 < bound \<and>
          exponentialBackoff 5 factor bound
            (delays (resubscribeLoop [CouldNotSubscribe ''EOF'', CouldNotSubscribe ''EOF'',
                                      CouldNotSubscribe ''EOF''])))"
proof -
  have d: "delays (resubscribeLoop [CouldNotSubscribe ''EOF'', CouldNotSubscribe ''EOF'',
                            CouldNotSubscribe ''EOF'']) = [5, 5, 5]"
    by (simp add: delays_def)
  have "\<not> exponentialBackoff 5 factor bound [5, 5, 5]" if "2 \<le> factor" "5 < bound" for factor bound
  proof
    assume "exponentialBackoff 5 factor bound [5, 5, 5]"
    then have "[5, 5, 5 :: nat] ! 1 = min bound (5 * factor ^ 1)"
      unfolding exponentialBackoff_def by (metis One_nat_def length_Cons less_Suc_eq_0_disj list.size(3))
    then have "5 = min bound (5 * factor)"
      by simp
    moreover have "5 < 5 * factor"
      using that(1) by simp
    ultimately show False
      using that(2) by (simp add: min_def split: if_splits)
  qed
  with d show ?thesis
    by auto
qed

section \<open>Verification: the barrier before the protocol starts\<close>

lemma filter_update_count:
  "i < length xs \<Longrightarrow>
     length (filter P (xs[i := y])) + (if P (xs ! i) then 1 else 0)
       = length (filter P xs) + (if P y then 1 else 0)"
proof (induction xs arbitrary: i)
  case Nil
  then show ?case by simp
next
  case (Cons x xs)
  show ?case
  proof (cases i)
    case 0
    then show ?thesis by simp
  next
    case (Suc j)
    with Cons.prems have "j < length xs" by simp
    from Cons.IH [OF this] Suc show ?thesis by simp
  qed
qed

lemma pending_update:
  assumes "i < length (memberAt s)"
  shows "int (pending (s\<lparr>memberAt := (memberAt s)[i := y]\<rparr>))
           = int (pending s) - (if beforeDone (memberAt s ! i) then 1 else 0)
             + (if beforeDone y then 1 else 0)"
  using filter_update_count [OF assms, of beforeDone y]
  by (simp add: pending_def split: if_splits)

lemma pending_pos:
  assumes "i < length (memberAt s)" "beforeDone (memberAt s ! i)"
  shows "0 < pending s"
proof -
  have "memberAt s ! i \<in> set (filter beforeDone (memberAt s))"
    using assms by simp
  then show ?thesis
    unfolding pending_def by (metis length_pos_if_in_set)
qed

lemma pending_zero:
  "pending s = 0 \<Longrightarrow> m \<in> set (memberAt s) \<Longrightarrow> m = Waiting \<or> m = Started"
proof -
  assume "pending s = 0" "m \<in> set (memberAt s)"
  then have "\<not> beforeDone m"
    by (auto simp: pending_def filter_empty_conv)
  then show ?thesis
    by (cases m) simp_all
qed

lemma set_update_cases: "x \<in> set (xs[i := y]) \<Longrightarrow> x = y \<or> x \<in> set xs"
  using set_update_subset_insert [of xs i y] by auto

lemma sync_step_inv:
  assumes "barrierInv s"
  shows "barrierInv (sync_step e s)"
proof -
  from assms have c: "waitGroup s = int (pending s)" and np: "\<not> negativeCounter s"
    and st: "Started \<in> set (memberAt s) \<Longrightarrow> waitGroup s = 0"
    by (simp_all add: barrierInv_def)
  show ?thesis
  proof (cases e)
    case (InitReturns i ok)
    show ?thesis
    proof (cases "i < length (memberAt s) \<and> memberAt s ! i = Initializing")
      case False
      with assms np InitReturns show ?thesis
        by (auto simp: sync_step_def)
    next
      case True
      let ?y = "if ok then Initialized else InitFailed"
      let ?s' = "s\<lparr>memberAt := (memberAt s)[i := ?y]\<rparr>"
      have e: "sync_step e s = ?s'"
        using True np InitReturns by (simp add: sync_step_def)
      have "int (pending ?s') = int (pending s)"
        using pending_update [of i s ?y] True by simp
      moreover have "Started \<in> set (memberAt ?s') \<Longrightarrow> Started \<in> set (memberAt s)"
        using set_update_cases [of Started "memberAt s" i ?y] by (auto split: if_splits)
      ultimately show ?thesis
        unfolding e using c np st by (simp add: barrierInv_def)
    qed
  next
    case (DoneCalled i)
    show ?thesis
    proof (cases "i < length (memberAt s) \<and> memberAt s ! i = Initialized")
      case False
      with assms np DoneCalled show ?thesis
        by (auto simp: sync_step_def)
    next
      case True
      then have pos: "0 < pending s"
        using pending_pos [of i s] by simp
      let ?s' = "s\<lparr>waitGroup := waitGroup s - 1, memberAt := (memberAt s)[i := Waiting]\<rparr>"
      have e: "sync_step e s = ?s'"
        using True np DoneCalled c pos by (simp add: sync_step_def)
      have p: "int (pending ?s') = int (pending s) - 1"
        using pending_update [of i s Waiting] True by (simp add: pending_def)
      have ns: "Started \<notin> set (memberAt s)"
        using st c pos by auto
      then have "Started \<notin> set (memberAt ?s')"
        using set_update_cases [of Started "memberAt s" i Waiting] by auto
      then show ?thesis
        unfolding e using c np p by (simp add: barrierInv_def)
    qed
  next
    case (WaitReturns i)
    show ?thesis
    proof (cases "i < length (memberAt s) \<and> memberAt s ! i = Waiting \<and> waitGroup s = 0")
      case False
      with assms np WaitReturns show ?thesis
        by (auto simp: sync_step_def)
    next
      case True
      let ?s' = "s\<lparr>memberAt := (memberAt s)[i := Started]\<rparr>"
      have e: "sync_step e s = ?s'"
        using True np WaitReturns by (simp add: sync_step_def)
      have "int (pending ?s') = int (pending s)"
        using pending_update [of i s Started] True by simp
      then show ?thesis
        unfolding e using c np True by (simp add: barrierInv_def)
    qed
  qed
qed

lemma sync_run_inv: "barrierInv s \<Longrightarrow> barrierInv (sync_run es s)"
  by (induction es arbitrary: s) (simp_all add: sync_step_inv)

lemma startSession_inv: "barrierInv (startSession (int n) n)"
  by (simp add: barrierInv_def startSession_def pending_def)

lemma sync_step_length: "length (memberAt (sync_step e s)) = length (memberAt s)"
  by (cases e) (simp_all add: sync_step_def)

lemma sync_run_length: "length (memberAt (sync_run es s)) = length (memberAt s)"
  by (induction es arbitrary: s) (simp_all add: sync_step_length)

text \<open>
  Claim C2, as the code has it. The barrier is the wait group: when it was raised to
  the number of members, a member is past the barrier (where its party is started) only
  if the counter is zero, no \<open>Done\<close> has panicked, and every member of the session has
  finished its initialisation and called \<open>Done\<close>; so no party is started before all
  members are initialised. No ready message is involved and the wait has no time limit.
\<close>

theorem C2_barrier:
  assumes "Started \<in> set (memberAt (sync_run es (startSession (int n) n)))"
  shows "waitGroup (sync_run es (startSession (int n) n)) = 0 \<and>
         \<not> negativeCounter (sync_run es (startSession (int n) n)) \<and>
         length (memberAt (sync_run es (startSession (int n) n))) = n \<and>
         (\<forall>m \<in> set (memberAt (sync_run es (startSession (int n) n))).
            m = Waiting \<or> m = Started)"
proof -
  let ?s = "sync_run es (startSession (int n) n)"
  have inv: "barrierInv ?s"
    using startSession_inv by (rule sync_run_inv)
  with assms have z: "waitGroup ?s = 0" and np: "\<not> negativeCounter ?s" and p: "pending ?s = 0"
    by (simp_all add: barrierInv_def)
  have "length (memberAt ?s) = n"
    by (simp add: sync_run_length startSession_def)
  with z np pending_zero [OF p] show ?thesis
    by blast
qed


theorem C2_barrier_witness:
  "sync_run [InitReturns 0 True, InitReturns 1 True, DoneCalled 0, WaitReturns 0, DoneCalled 1,
             WaitReturns 0] (startSession (int 2) 2)
     = \<lparr> waitGroup = 0, memberAt = [Started, Waiting], negativeCounter = False \<rparr> \<and>
   memberAt (sync_run [InitReturns 0 True, InitReturns 1 True, DoneCalled 0, WaitReturns 0]
              (startSession (int 2) 2)) = [Waiting, Initialized] \<and>
   Started \<in> set (memberAt
     (sync_run [InitReturns 0 True, InitReturns 1 True, DoneCalled 0, WaitReturns 0, DoneCalled 1,
                WaitReturns 0] (startSession (int 2) 2))) \<and>
   waitGroup (sync_run [InitReturns 0 True, InitReturns 1 True, DoneCalled 0, WaitReturns 0,
                        DoneCalled 1, WaitReturns 0] (startSession (int 2) 2)) = 0 \<and>
   length (memberAt (sync_run [InitReturns 0 True, InitReturns 1 True, DoneCalled 0, WaitReturns 0,
                        DoneCalled 1, WaitReturns 0] (startSession (int 2) 2))) = 2"
proof -
  let ?es = "[InitReturns 0 True, InitReturns 1 True, DoneCalled 0, WaitReturns 0, DoneCalled 1,
              WaitReturns 0]"
  have ev: "sync_run ?es (startSession (int 2) 2)
     = \<lparr> waitGroup = 0, memberAt = [Started, Waiting], negativeCounter = False \<rparr>"
    by (simp add: startSession_def sync_step_def numeral_2_eq_2)
  have early: "memberAt (sync_run [InitReturns 0 True, InitReturns 1 True, DoneCalled 0, WaitReturns 0]
              (startSession (int 2) 2)) = [Waiting, Initialized]"
    by (simp add: startSession_def sync_step_def numeral_2_eq_2)
  have started: "Started \<in> set (memberAt (sync_run ?es (startSession (int 2) 2)))"
    unfolding ev by simp
  from C2_barrier [OF started] ev early started show ?thesis
    by simp
qed

text \<open>
  The claim as stated fails: the wait is not bounded. In a session of three members
  whose third member returns from a failed initialisation (and so never calls \<open>Done\<close>),
  the other two are inside \<open>Wait\<close> with the counter at 1, and no move of any member
  changes the session: they neither start nor fail, however long they wait.
\<close>

theorem C2_counterexample:
  "sync_run [InitReturns 0 True, InitReturns 1 True, InitReturns 2 False, DoneCalled 0,
             DoneCalled 1, WaitReturns 0, WaitReturns 1] (startSession 3 3)
     = \<lparr> waitGroup = 1, memberAt = [Waiting, Waiting, InitFailed], negativeCounter = False \<rparr> \<and>
   (\<forall>e. sync_step e
          \<lparr> waitGroup = 1, memberAt = [Waiting, Waiting, InitFailed], negativeCounter = False \<rparr>
          = \<lparr> waitGroup = 1, memberAt = [Waiting, Waiting, InitFailed], negativeCounter = False \<rparr>)"
proof (intro conjI allI)
  show "sync_run [InitReturns 0 True, InitReturns 1 True, InitReturns 2 False, DoneCalled 0,
             DoneCalled 1, WaitReturns 0, WaitReturns 1] (startSession 3 3)
     = \<lparr> waitGroup = 1, memberAt = [Waiting, Waiting, InitFailed], negativeCounter = False \<rparr>"
    by (simp add: startSession_def sync_step_def numeral_3_eq_3)
next
  fix e
  show "sync_step e
          \<lparr> waitGroup = 1, memberAt = [Waiting, Waiting, InitFailed], negativeCounter = False \<rparr>
          = \<lparr> waitGroup = 1, memberAt = [Waiting, Waiting, InitFailed], negativeCounter = False \<rparr>"
    by (cases e) (auto simp: sync_step_def nth_Cons' less_Suc_eq)
qed

end
